theory Spec2Isabelle
  imports Main
begin

section \<open>Memory, platform and processes\<close>

text \<open>
  Both programs work on arrays of \<^verbatim>\<open>double\<close> that live in the memory of a process and
  are reached through pointers. A heap maps an address to the value stored there;
  addresses count array cells, so \<open>p + i\<close> is the address of \<^verbatim>\<open>p[i]\<close>. The null
  pointer is the address 0, which is what a failed \<^verbatim>\<open>malloc\<close> returns. The answers of
  \<^verbatim>\<open>malloc\<close> are inputs of the model.

  The arithmetic of \<^verbatim>\<open>double\<close> and the random number generator of the C library are
  not part of the repository. They are parameters of the model, collected in a record:
  \<open>'d\<close> is the type of \<^verbatim>\<open>double\<close> values and \<open>'s\<close> the hidden state of the generator.
  The section on IEEE 754 binary64 below gives the arithmetic of the usual platforms as
  one such record.
  Array sizes, indices and ranks are the non-negative \<^verbatim>\<open>int\<close> values of the programs
  (the vector order is 100000 in both, far from overflow) and are natural numbers here.
\<close>

type_synonym addr = nat

definition NULL :: addr where
  "NULL = 0"

type_synonym 'd heap = "addr \<Rightarrow> 'd"

record ('d, 's) platform =
  fadd :: "'d \<Rightarrow> 'd \<Rightarrow> 'd"
  fdiv :: "'d \<Rightarrow> 'd \<Rightarrow> 'd"
  of_int_d :: "int \<Rightarrow> 'd"
  srand :: "nat \<Rightarrow> 's"
  rand :: "'s \<Rightarrow> nat \<times> 's"
  RAND_MAX :: nat

text \<open>The cells \<open>p, p + 1, ..., p + n - 1\<close> of a heap, read as a sequence.\<close>

definition read_array :: "'d heap \<Rightarrow> addr \<Rightarrow> nat \<Rightarrow> 'd list" where
  "read_array h p n = map (\<lambda>i. h (p + i)) [0..<n]"

text \<open>A sequence stored into the cells from \<open>p\<close> on.\<close>

definition write_array :: "addr \<Rightarrow> 'd list \<Rightarrow> 'd heap \<Rightarrow> 'd heap" where
  "write_array p vs h = (\<lambda>q. if p \<le> q \<and> q < p + length vs then vs ! (q - p) else h q)"

text \<open>Two blocks of \<open>n\<close> and \<open>m\<close> cells that share no cell, as two live allocations are.\<close>

definition separate :: "addr \<Rightarrow> nat \<Rightarrow> addr \<Rightarrow> nat \<Rightarrow> bool" where
  "separate p n q m = (p + n \<le> q \<or> q + m \<le> p)"

text \<open>
  What a process writes to its standard output: text, and numbers printed with a
  \<^verbatim>\<open>printf\<close> format (the digits a format produces are not modelled).
\<close>

datatype 'd printed = Text string | Number 'd

text \<open>The collective operations of MPI that a process has entered, in order.\<close>

datatype collective = Allreduce | Scatter | Gather | Finalize

text \<open>
  The state of one process: its rank in the communicator (0 for the serial program),
  its memory, the state of its random number generator, what it has written to standard
  error and standard output, the collective operations it has entered, and its exit
  status once it has terminated.
\<close>

record ('d, 's) process =
  rank :: nat
  heap :: "'d heap"
  rng :: 's
  stderr :: "string list"
  stdout :: "'d printed list"
  collectives :: "collective list"
  exit_status :: "int option"

definition running :: "('d, 's) process \<Rightarrow> bool" where
  "running p = (exit_status p = None)"

text \<open>
  The status that a process exits with when it calls \<^verbatim>\<open>exit(status)\<close> or returns
  \<open>status\<close> from \<^verbatim>\<open>main\<close>: the low 8 bits of the argument, so 255 for
  \<^verbatim>\<open>exit(-1)\<close>.
\<close>

definition exit_code :: "int \<Rightarrow> int" where
  "exit_code status = status mod 256"

text \<open>The code of a process that is still running; a terminated process does nothing.\<close>

definition local_step ::
  "(('d, 's) process \<Rightarrow> ('d, 's) process) \<Rightarrow> ('d, 's) process \<Rightarrow> ('d, 's) process" where
  "local_step f p = (if running p then f p else p)"

text \<open>
  A process at the start of \<^verbatim>\<open>main\<close>, with the memory it finds. Until the program calls
  \<^verbatim>\<open>srand\<close> the generator is in the state of \<^verbatim>\<open>srand(1)\<close>.
\<close>

definition process_start :: "('d, 's) platform \<Rightarrow> nat \<Rightarrow> 'd heap \<Rightarrow> ('d, 's) process" where
  "process_start P r memory =
     \<lparr>rank = r, heap = memory, rng = srand P 1, stderr = [], stdout = [],
      collectives = [], exit_status = None\<rparr>"

text \<open>
  The generator seen from outside: its state after \<open>i\<close> calls of \<^verbatim>\<open>rand\<close> from the state
  \<open>s\<close>, and the number that the next call returns.
\<close>

fun rand_state :: "('d, 's) platform \<Rightarrow> 's \<Rightarrow> nat \<Rightarrow> 's" where
  "rand_state P s 0 = s"
| "rand_state P s (Suc i) = rand_state P (snd (rand P s)) i"

definition rand_output :: "('d, 's) platform \<Rightarrow> 's \<Rightarrow> nat \<Rightarrow> nat" where
  "rand_output P s i = fst (rand P (rand_state P s i))"

text \<open>The characters \<^verbatim>\<open>\n\<close> of a C string: a line feed.\<close>

definition newline :: string where
  "newline = [CHR 0x0A]"

text \<open>
  The characters \<^verbatim>\<open>\\n\<close> of a C string, as \<^verbatim>\<open>mpi_vector_sum.c\<close> writes them in its
  formats: a backslash and the letter n.
\<close>

definition backslash_n :: string where
  "backslash_n = [CHR 0x5C, CHR ''n'']"

text \<open>The format \<^verbatim>\<open>%d\<close> of a non-negative number.\<close>

fun decimal :: "nat \<Rightarrow> string" where
  "decimal n =
     (if n < 10 then [''0123456789'' ! n]
      else decimal (n div 10) @ [''0123456789'' ! (n mod 10)])"

declare decimal.simps [simp del]

section \<open>The serial program (\<^verbatim>\<open>modified_vector_add.c\<close>)\<close>

definition VECTOR_SIZE :: nat where
  "VECTOR_SIZE = 100000"

text \<open>
  \<^verbatim>\<open>Allocate_vectors\<close>: \<open>x\<close>, \<open>y\<close> and \<open>z\<close> are the answers of the three calls of
  \<^verbatim>\<open>malloc\<close>. When one of them is null the process writes a message to standard error
  and calls \<^verbatim>\<open>exit(-1)\<close>, which ends it with the status 255.
\<close>

definition serial_Allocate_vectors ::
  "addr \<Rightarrow> addr \<Rightarrow> addr \<Rightarrow> nat \<Rightarrow> ('d, 's) process \<Rightarrow> ('d, 's) process" where
  "serial_Allocate_vectors x y z n p =
     (if x = NULL \<or> y = NULL \<or> z = NULL
      then p\<lparr>stderr := stderr p @ [''Can't allocate vectors'' @ newline],
             exit_status := Some (exit_code (- 1))\<rparr>
      else p)"

text \<open>
  \<^verbatim>\<open>Generate_random_vector\<close>:
  \<^verbatim>\<open>srand(time(NULL)); for (int i = 0; i < n; i++) a[i] = (rand() % 1000) / 10.0;\<close>
  The value \<open>t\<close> is what \<^verbatim>\<open>time(NULL)\<close> returns at this call. The remainder is an
  \<^verbatim>\<open>int\<close>, converted to \<^verbatim>\<open>double\<close> for the division by the constant 10.0.
\<close>

function Generate_random_vector_loop ::
  "('d, 's) platform \<Rightarrow> addr \<Rightarrow> nat \<Rightarrow> nat \<Rightarrow> ('d, 's) process \<Rightarrow> ('d, 's) process" where
  "Generate_random_vector_loop P a n i p =
     (if i < n
      then Generate_random_vector_loop P a n (i + 1)
             (p\<lparr>rng := snd (rand P (rng p)),
                heap := (heap p)(a + i :=
                  fdiv P (of_int_d P (int (fst (rand P (rng p)) mod 1000))) (of_int_d P 10))\<rparr>)
      else p)"
  by pat_completeness auto
termination
  by (relation "measure (\<lambda>(P, a, n, i, p). n - i)") auto

declare Generate_random_vector_loop.simps [simp del]

definition Generate_random_vector ::
  "('d, 's) platform \<Rightarrow> nat \<Rightarrow> addr \<Rightarrow> nat \<Rightarrow> ('d, 's) process \<Rightarrow> ('d, 's) process" where
  "Generate_random_vector P t a n p =
     Generate_random_vector_loop P a n 0 (p\<lparr>rng := srand P t\<rparr>)"

text \<open>
  \<^verbatim>\<open>Print_part_of_vector\<close>: the title, the first 10 elements (fewer when \<open>n < 10\<close>)
  and a line feed.
\<close>

function Print_part_of_vector_loop ::
  "addr \<Rightarrow> nat \<Rightarrow> nat \<Rightarrow> ('d, 's) process \<Rightarrow> ('d, 's) process" where
  "Print_part_of_vector_loop b n i p =
     (if i < 10 \<and> i < n
      then Print_part_of_vector_loop b n (i + 1)
             (p\<lparr>stdout := stdout p @ [Number (heap p (b + i))]\<rparr>)
      else p)"
  by pat_completeness auto
termination
  by (relation "measure (\<lambda>(b, n, i, p). n - i)") auto

declare Print_part_of_vector_loop.simps [simp del]

definition Print_part_of_vector ::
  "addr \<Rightarrow> nat \<Rightarrow> string \<Rightarrow> ('d, 's) process \<Rightarrow> ('d, 's) process" where
  "Print_part_of_vector b n title p =
     (let p1 = p\<lparr>stdout := stdout p @ [Text (title @ newline)]\<rparr>;
          p2 = Print_part_of_vector_loop b n 0 p1
      in p2\<lparr>stdout := stdout p2 @ [Text newline]\<rparr>)"

text \<open>
  \<^verbatim>\<open>Vector_sum\<close>: \<^verbatim>\<open>for (int i = 0; i < n; i++) z[i] = x[i] + y[i];\<close>
  The loop is the recursion on the counter \<open>i\<close>; the function is the loop from 0.
\<close>

function Vector_sum_loop ::
  "('d, 's) platform \<Rightarrow> addr \<Rightarrow> addr \<Rightarrow> addr \<Rightarrow> nat \<Rightarrow> nat \<Rightarrow> 'd heap \<Rightarrow> 'd heap" where
  "Vector_sum_loop P x y z n i h =
     (if i < n
      then Vector_sum_loop P x y z n (i + 1) (h(z + i := fadd P (h (x + i)) (h (y + i))))
      else h)"
  by pat_completeness auto
termination
  by (relation "measure (\<lambda>(P, x, y, z, n, i, h). n - i)") auto

declare Vector_sum_loop.simps [simp del]

definition Vector_sum ::
  "('d, 's) platform \<Rightarrow> addr \<Rightarrow> addr \<Rightarrow> addr \<Rightarrow> nat \<Rightarrow> 'd heap \<Rightarrow> 'd heap" where
  "Vector_sum P x y z n h = Vector_sum_loop P x y z n 0 h"

text \<open>
  \<^verbatim>\<open>main\<close> of the serial program. \<open>x\<close>, \<open>y\<close> and \<open>z\<close> are the answers of \<^verbatim>\<open>malloc\<close>,
  \<open>t1\<close> and \<open>t2\<close> the time at the two calls of \<^verbatim>\<open>Generate_random_vector\<close>, and
  \<open>memory\<close> is what the memory holds at the start. The process
  ends with the status of \<^verbatim>\<open>exit\<close> or with the 0 that \<^verbatim>\<open>main\<close> returns. \<^verbatim>\<open>free\<close>
  leaves the memory as it is.
\<close>

definition serial_main ::
  "('d, 's) platform \<Rightarrow> addr \<Rightarrow> addr \<Rightarrow> addr \<Rightarrow> nat \<Rightarrow> nat \<Rightarrow> 'd heap \<Rightarrow> ('d, 's) process" where
  "serial_main P x y z t1 t2 memory =
     (let n = VECTOR_SIZE;
          p1 = serial_Allocate_vectors x y z n (process_start P 0 memory)
      in if \<not> running p1 then p1
         else
           (let p2 = Generate_random_vector P t1 x n p1;
                p3 = Generate_random_vector P t2 y n p2;
                p4 = p3\<lparr>heap := Vector_sum P x y z n (heap p3)\<rparr>;
                p5 = Print_part_of_vector z n ''A part of the sum is'' p4
            in p5\<lparr>exit_status := Some (exit_code 0)\<rparr>))"

section \<open>The distributed program (\<^verbatim>\<open>mpi_vector_sum.c\<close>)\<close>

text \<open>
  Every process of the communicator runs the same code. The model runs the processes in
  step: a communicator is the list of its processes, the process of rank \<open>r\<close> at
  position \<open>r\<close>, and a function of the program that contains a collective operation is a
  function on that list. A variable of the program that differs between the processes
  (a pointer returned by \<^verbatim>\<open>malloc\<close>, a local flag) is a function of the rank.

  A collective operation completes when every process of the communicator takes part.
  When all processes have terminated nobody calls it; when some have terminated and
  others call it, these wait forever. Dereferencing a null pointer stops the run as well.
\<close>

datatype failure = Deadlock | Null_dereference

definition collective_call ::
  "('d, 's) process list \<Rightarrow> (('d, 's) process list \<Rightarrow> failure + ('d, 's) process list)
     \<Rightarrow> failure + ('d, 's) process list" where
  "collective_call comm f =
     (if list_all running comm then f comm
      else if list_all (\<lambda>p. \<not> running p) comm then Inr comm
      else Inl Deadlock)"

text \<open>
  \<^verbatim>\<open>MPI_Allreduce\<close> with \<^verbatim>\<open>MPI_MIN\<close> on one \<^verbatim>\<open>int\<close>: every process receives the least
  of the values that the processes contribute.
\<close>

definition MPI_Allreduce_MIN :: "int list \<Rightarrow> int" where
  "MPI_Allreduce_MIN contributions = Min (set contributions)"

text \<open>
  \<^verbatim>\<open>MPI_Scatter\<close> with root 0: the process of rank \<open>r\<close> receives, into its \<open>recvbuf\<close>,
  the \<open>sendcount\<close> cells of the root's \<open>sendbuf\<close> that start at \<open>r * sendcount\<close>.
\<close>

definition MPI_Scatter ::
  "'d heap \<Rightarrow> addr \<Rightarrow> nat \<Rightarrow> addr \<Rightarrow> ('d, 's) process \<Rightarrow> ('d, 's) process" where
  "MPI_Scatter root_heap sendbuf sendcount recvbuf p =
     p\<lparr>heap := write_array recvbuf
                 (read_array root_heap (sendbuf + rank p * sendcount) sendcount) (heap p),
       collectives := collectives p @ [Scatter]\<rparr>"

text \<open>
  \<^verbatim>\<open>MPI_Gather\<close> with root 0: the root receives the \<open>sendcount\<close> cells of the \<open>sendbuf\<close> of
  the process of rank \<open>r\<close> into its \<open>recvbuf\<close>, from \<open>r * sendcount\<close> on; the other
  processes only send.
\<close>

definition MPI_Gather ::
  "('d, 's) process list \<Rightarrow> (nat \<Rightarrow> addr) \<Rightarrow> nat \<Rightarrow> addr \<Rightarrow> ('d, 's) process
     \<Rightarrow> ('d, 's) process" where
  "MPI_Gather comm sendbuf sendcount recvbuf p =
     (if rank p = 0
      then p\<lparr>heap := fold (\<lambda>q. write_array (recvbuf + rank q * sendcount)
                               (read_array (heap q) (sendbuf (rank q)) sendcount))
                        comm (heap p),
             collectives := collectives p @ [Gather]\<rparr>
      else p\<lparr>collectives := collectives p @ [Gather]\<rparr>)"

text \<open>\<^verbatim>\<open>MPI_Init\<close>: \<open>comm_sz\<close> processes, each with its own rank and memory.\<close>

definition MPI_Init ::
  "('d, 's) platform \<Rightarrow> nat \<Rightarrow> (nat \<Rightarrow> 'd heap) \<Rightarrow> ('d, 's) process list" where
  "MPI_Init P comm_sz memory = map (\<lambda>r. process_start P r (memory r)) [0..<comm_sz]"

text \<open>\<^verbatim>\<open>Read_n\<close>: \<^verbatim>\<open>*n_p = 100000; *local_n_p = *n_p / comm_sz;\<close> The result is \<open>(n, local_n)\<close>.\<close>

definition Read_n :: "nat \<Rightarrow> nat \<Rightarrow> nat \<times> nat" where
  "Read_n my_rank comm_sz = (let n = 100000 in (n, n div comm_sz))"

text \<open>
  \<^verbatim>\<open>Check_for_error\<close>: \<open>local_ok\<close> is the flag of each rank. After the reduction, when
  the least flag is 0, rank 0 writes the message, and every process calls
  \<^verbatim>\<open>MPI_Finalize\<close> and \<^verbatim>\<open>exit(-1)\<close>.
\<close>

definition Check_for_error ::
  "(nat \<Rightarrow> int) \<Rightarrow> string \<Rightarrow> string \<Rightarrow> ('d, 's) process list \<Rightarrow> ('d, 's) process list" where
  "Check_for_error local_ok fname message comm =
     (let ok = MPI_Allreduce_MIN (map (\<lambda>q. local_ok (rank q)) comm)
      in map (\<lambda>p.
           let my_rank = rank p;
               p1 = p\<lparr>collectives := collectives p @ [Allreduce]\<rparr>
           in if ok = 0
              then (let p2 = (if my_rank = 0
                              then p1\<lparr>stderr := stderr p1 @
                                     [''Proc '' @ decimal my_rank @ '' > In '' @ fname @ '', '' @
                                      message @ backslash_n]\<rparr>
                              else p1)
                    in p2\<lparr>collectives := collectives p2 @ [Finalize],
                          exit_status := Some (exit_code (- 1))\<rparr>)
              else p1) comm)"

text \<open>
  \<^verbatim>\<open>Allocate_vectors\<close> of the distributed program: \<open>local_x r\<close>, \<open>local_y r\<close> and
  \<open>local_z r\<close> are the answers of \<^verbatim>\<open>malloc\<close> on rank \<open>r\<close>.
\<close>

definition mpi_Allocate_vectors ::
  "(nat \<Rightarrow> addr) \<Rightarrow> (nat \<Rightarrow> addr) \<Rightarrow> (nat \<Rightarrow> addr) \<Rightarrow> nat \<Rightarrow> ('d, 's) process list
     \<Rightarrow> ('d, 's) process list" where
  "mpi_Allocate_vectors local_x local_y local_z local_n comm =
     Check_for_error
       (\<lambda>r. if local_x r = NULL \<or> local_y r = NULL \<or> local_z r = NULL then 0 else 1)
       ''Allocate_vectors'' ''Can't allocate local arrays'' comm"

text \<open>
  \<^verbatim>\<open>Read_vector\<close>. On rank 0:
  \<^verbatim>\<open>for (i = 0; i < n; i++) a[i] = (double) rand() / RAND_MAX;\<close>
  into the block \<open>a\<close> that \<^verbatim>\<open>malloc\<close> returned there, which the program does not compare
  with \<^verbatim>\<open>NULL\<close>. Then every process takes part in the scatter.
\<close>

function Read_vector_loop ::
  "('d, 's) platform \<Rightarrow> addr \<Rightarrow> nat \<Rightarrow> nat \<Rightarrow> ('d, 's) process \<Rightarrow> ('d, 's) process" where
  "Read_vector_loop P a n i p =
     (if i < n
      then Read_vector_loop P a n (i + 1)
             (p\<lparr>rng := snd (rand P (rng p)),
                heap := (heap p)(a + i :=
                  fdiv P (of_int_d P (int (fst (rand P (rng p)))))
                         (of_int_d P (int (RAND_MAX P))))\<rparr>)
      else p)"
  by pat_completeness auto
termination
  by (relation "measure (\<lambda>(P, a, n, i, p). n - i)") auto

declare Read_vector_loop.simps [simp del]

definition Read_vector ::
  "('d, 's) platform \<Rightarrow> (nat \<Rightarrow> addr) \<Rightarrow> nat \<Rightarrow> nat \<Rightarrow> string \<Rightarrow> addr \<Rightarrow> ('d, 's) process list
     \<Rightarrow> failure + ('d, 's) process list" where
  "Read_vector P local_a local_n n vec_name a comm =
     (if a = NULL \<and> 0 < n then Inl Null_dereference
      else
        (let root = Read_vector_loop P a n 0 (comm ! 0)
         in Inr (map (\<lambda>p.
              let my_rank = rank p
              in if my_rank = 0
                 then MPI_Scatter (heap root) a local_n (local_a my_rank) root
                 else MPI_Scatter (heap root) a local_n (local_a my_rank) p) comm)))"

text \<open>
  \<^verbatim>\<open>Parallel_vector_sum\<close>: the loop of \<^verbatim>\<open>Vector_sum\<close> over the block of one process,
  with the counter \<^verbatim>\<open>local_i\<close>.
\<close>

function Parallel_vector_sum_loop ::
  "('d, 's) platform \<Rightarrow> addr \<Rightarrow> addr \<Rightarrow> addr \<Rightarrow> nat \<Rightarrow> nat \<Rightarrow> 'd heap \<Rightarrow> 'd heap" where
  "Parallel_vector_sum_loop P local_x local_y local_z local_n local_i h =
     (if local_i < local_n
      then Parallel_vector_sum_loop P local_x local_y local_z local_n (local_i + 1)
             (h(local_z + local_i := fadd P (h (local_x + local_i)) (h (local_y + local_i))))
      else h)"
  by pat_completeness auto
termination
  by (relation "measure (\<lambda>(P, x, y, z, n, i, h). n - i)") auto

declare Parallel_vector_sum_loop.simps [simp del]

definition Parallel_vector_sum ::
  "('d, 's) platform \<Rightarrow> addr \<Rightarrow> addr \<Rightarrow> addr \<Rightarrow> nat \<Rightarrow> 'd heap \<Rightarrow> 'd heap" where
  "Parallel_vector_sum P local_x local_y local_z local_n h =
     Parallel_vector_sum_loop P local_x local_y local_z local_n 0 h"

text \<open>
  \<^verbatim>\<open>Print_vector\<close>: rank 0 allocates the block \<open>b\<close> for the whole vector and the
  processes agree on whether that worked; then the gather, and rank 0 prints the title
  and the \<open>n\<close> cells of \<open>b\<close>.
\<close>

function Print_vector_loop ::
  "addr \<Rightarrow> nat \<Rightarrow> nat \<Rightarrow> ('d, 's) process \<Rightarrow> ('d, 's) process" where
  "Print_vector_loop b n i p =
     (if i < n
      then Print_vector_loop b n (i + 1) (p\<lparr>stdout := stdout p @ [Number (heap p (b + i))]\<rparr>)
      else p)"
  by pat_completeness auto
termination
  by (relation "measure (\<lambda>(b, n, i, p). n - i)") auto

declare Print_vector_loop.simps [simp del]

definition Print_vector ::
  "(nat \<Rightarrow> addr) \<Rightarrow> nat \<Rightarrow> nat \<Rightarrow> string \<Rightarrow> addr \<Rightarrow> ('d, 's) process list
     \<Rightarrow> failure + ('d, 's) process list" where
  "Print_vector local_b local_n n title b comm =
     (let comm1 = Check_for_error (\<lambda>r. if r = 0 \<and> b = NULL then 0 else 1)
                    ''Print_vector'' ''Can't allocate temporary vector'' comm
      in collective_call comm1 (\<lambda>comm2. Inr (map (\<lambda>p.
           let my_rank = rank p
           in if my_rank = 0
              then (let p1 = MPI_Gather comm2 local_b local_n b p;
                        p2 = p1\<lparr>stdout := stdout p1 @ [Text (title @ backslash_n)]\<rparr>;
                        p3 = Print_vector_loop b n 0 p2
                    in p3\<lparr>stdout := stdout p3 @ [Text backslash_n]\<rparr>)
              else MPI_Gather comm2 local_b local_n b p) comm2)))"

text \<open>
  The answers of \<^verbatim>\<open>malloc\<close> in one run of the distributed program: the three blocks of
  every rank, and on rank 0 the whole vectors of the two calls of \<^verbatim>\<open>Read_vector\<close> and
  of \<^verbatim>\<open>Print_vector\<close>.
\<close>

record mallocs =
  local_x :: "nat \<Rightarrow> addr"
  local_y :: "nat \<Rightarrow> addr"
  local_z :: "nat \<Rightarrow> addr"
  a_x :: addr
  a_y :: addr
  b_z :: addr

text \<open>
  \<^verbatim>\<open>main\<close> of the distributed program after \<^verbatim>\<open>Read_n\<close>, for a vector order \<open>n\<close> and
  a block size \<open>local_n\<close>; and \<^verbatim>\<open>main\<close> itself. A process that reaches the end calls
  \<^verbatim>\<open>MPI_Finalize\<close> and returns 0.
\<close>

definition mpi_run ::
  "('d, 's) platform \<Rightarrow> mallocs \<Rightarrow> nat \<Rightarrow> nat \<Rightarrow> ('d, 's) process list
     \<Rightarrow> failure + ('d, 's) process list" where
  "mpi_run P M n local_n comm =
     (let comm1 = mpi_Allocate_vectors (local_x M) (local_y M) (local_z M) local_n comm
      in case collective_call comm1 (Read_vector P (local_x M) local_n n ''x'' (a_x M)) of
           Inl e \<Rightarrow> Inl e
         | Inr comm2 \<Rightarrow>
      (case collective_call comm2 (Read_vector P (local_y M) local_n n ''y'' (a_y M)) of
           Inl e \<Rightarrow> Inl e
         | Inr comm3 \<Rightarrow>
      (let comm4 = map (local_step (\<lambda>p. p\<lparr>heap := Parallel_vector_sum P (local_x M (rank p))
                          (local_y M (rank p)) (local_z M (rank p)) local_n (heap p)\<rparr>)) comm3
       in case collective_call comm4
                 (Print_vector (local_z M) local_n n ''The sum is'' (b_z M)) of
            Inl e \<Rightarrow> Inl e
          | Inr comm5 \<Rightarrow>
              Inr (map (local_step (\<lambda>p. p\<lparr>collectives := collectives p @ [Finalize],
                                          exit_status := Some (exit_code 0)\<rparr>)) comm5))))"

definition mpi_main ::
  "('d, 's) platform \<Rightarrow> mallocs \<Rightarrow> nat \<Rightarrow> (nat \<Rightarrow> 'd heap) \<Rightarrow> failure + ('d, 's) process list" where
  "mpi_main P M comm_sz memory =
     (let comm = MPI_Init P comm_sz memory;
          (n, local_n) = Read_n 0 comm_sz
      in mpi_run P M n local_n comm)"

text \<open>
  The value of \<^verbatim>\<open>(double) rand() / RAND_MAX\<close> at the call number \<open>i\<close> of \<^verbatim>\<open>rand\<close>,
  counted from the generator state \<open>s\<close>.
\<close>

definition random_fraction :: "('d, 's) platform \<Rightarrow> 's \<Rightarrow> nat \<Rightarrow> 'd" where
  "random_fraction P s i =
     fdiv P (of_int_d P (int (rand_output P s i))) (of_int_d P (int (RAND_MAX P)))"

text \<open>
  The indices of the whole vector that belong to rank \<open>r\<close> when every rank has
  \<open>local_n\<close> elements: the cells that \<^verbatim>\<open>MPI_Scatter\<close> takes from the root's buffer for
  rank \<open>r\<close>, and that \<^verbatim>\<open>MPI_Gather\<close> fills from it.
\<close>

definition block :: "nat \<Rightarrow> nat \<Rightarrow> nat set" where
  "block local_n r = {r * local_n ..< r * local_n + local_n}"

text \<open>
  What \<^verbatim>\<open>malloc\<close> guarantees when every call in a run of \<open>comm_sz\<close> processes succeeds:
  no answer is null, and blocks that are live at the same time in one process share no
  cell. On rank 0 the whole vectors are live together with the three local blocks.
\<close>

definition allocated :: "mallocs \<Rightarrow> nat \<Rightarrow> nat \<Rightarrow> nat \<Rightarrow> bool" where
  "allocated M comm_sz n local_n =
     (list_all (\<lambda>r. local_x M r \<noteq> NULL \<and> local_y M r \<noteq> NULL \<and> local_z M r \<noteq> NULL \<and>
                    separate (local_x M r) local_n (local_y M r) local_n \<and>
                    separate (local_z M r) local_n (local_x M r) local_n \<and>
                    separate (local_z M r) local_n (local_y M r) local_n) [0..<comm_sz] \<and>
      list_all (\<lambda>a. a \<noteq> NULL \<and>
                    separate a n (local_x M 0) local_n \<and>
                    separate a n (local_y M 0) local_n \<and>
                    separate a n (local_z M 0) local_n) [a_x M, a_y M, b_z M])"

section \<open>IEEE 754 binary64\<close>

text \<open>
  The \<^verbatim>\<open>double\<close> of the platforms the programs are built for is the binary64 format of
  IEEE 754, with rounding to nearest, ties to even. A finite value \<open>Fin s m e\<close> has the
  sign \<open>s\<close> (true for negative) and the magnitude \<open>m * 2 ^ e\<close> in units of \<open>2 ^ -1074\<close>,
  the least positive value of the format: \<open>m\<close> is the 53-bit significand, and \<open>e\<close> is 0
  for the subnormal numbers and for the least binade, and the biased exponent less 1
  otherwise. A NaN \<open>NaN s f\<close> has the sign bit \<open>s\<close> and the 52-bit fraction field \<open>f\<close>,
  which is not zero; it is quiet when the top bit of the fraction, \<open>2 ^ 51\<close>, is set, and
  signalling otherwise.
\<close>

datatype double = NaN bool nat | Inf bool | Fin bool nat nat

definition is_double :: "double \<Rightarrow> bool" where
  "is_double d =
     (case d of
        Fin s m e \<Rightarrow> m < 2 ^ 53 \<and> e \<le> 2045 \<and> (e = 0 \<or> 2 ^ 52 \<le> m)
      | NaN s f \<Rightarrow> 0 < f \<and> f < 2 ^ 52
      | Inf s \<Rightarrow> True)"

fun is_nan :: "double \<Rightarrow> bool" where
  "is_nan (NaN s f) = True"
| "is_nan (Inf s) = False"
| "is_nan (Fin s m e) = False"

fun signalling :: "double \<Rightarrow> bool" where
  "signalling (NaN s f) = (f < 2 ^ 51)"
| "signalling (Inf s) = False"
| "signalling (Fin s m e) = False"

text \<open>
  The NaNs that the arithmetic of an x86-64 processor (the scalar SSE2 instructions
  \<^verbatim>\<open>addsd\<close> and \<^verbatim>\<open>divsd\<close>, with the exceptions masked) gives. A NaN operand comes back
  quiet, with its sign and the rest of its fraction kept; when both operands are NaNs the
  result is made from the first one, which is here the left operand of the C expression.
  An invalid operation on operands that are not NaNs gives the default NaN, which is
  negative and has only the quiet bit set (bits \<^verbatim>\<open>0xFFF8000000000000\<close>).
\<close>

definition quiet :: "bool \<Rightarrow> nat \<Rightarrow> double" where
  "quiet s f = NaN s (if f < 2 ^ 51 then f + 2 ^ 51 else f)"

definition default_NaN :: double where
  "default_NaN = NaN True (2 ^ 51)"

text \<open>The number of binary digits of a natural number.\<close>

fun bitlen :: "nat \<Rightarrow> nat" where
  "bitlen n = (if n = 0 then 0 else Suc (bitlen (n div 2)))"

declare bitlen.simps [simp del]

text \<open>
  A significand \<open>q\<close> of at most 53 bits, or \<open>2 ^ 53\<close> after rounding up, with the exponent
  \<open>k\<close>: the double with the magnitude \<open>q * 2 ^ k\<close>, or an infinity when it is beyond the
  largest finite double.
\<close>

definition normalise :: "bool \<Rightarrow> nat \<Rightarrow> nat \<Rightarrow> double" where
  "normalise s q k =
     (let m = (if q = 2 ^ 53 then 2 ^ 52 else q);
          e = (if q = 2 ^ 53 then k + 1 else k)
      in if 2045 < e then Inf s else Fin s m e)"

text \<open>
  The double nearest to the quotient \<open>N / D\<close> of units, with sign \<open>s\<close>: the quotient is cut
  to 53 significant bits, and rounded up when the remainder is more than half of the last
  place, or is half of it and the significand is odd.
\<close>

definition round_units :: "bool \<Rightarrow> nat \<Rightarrow> nat \<Rightarrow> double" where
  "round_units s N D =
     (let k = bitlen (N div D) - 53;
          u = D * 2 ^ k;
          q = N div u;
          r = N mod u
      in normalise s (if u < 2 * r \<or> (2 * r = u \<and> odd q) then q + 1 else q) k)"

definition units :: "bool \<Rightarrow> nat \<Rightarrow> nat \<Rightarrow> int" where
  "units s m e = (if s then - int (m * 2 ^ e) else int (m * 2 ^ e))"

text \<open>
  Addition. An exact sum of zero is \<open>-0\<close> when both operands are negative (two negative
  zeros) and \<open>+0\<close> otherwise. The sum of the two infinities of opposite signs is invalid.
\<close>

fun double_add :: "double \<Rightarrow> double \<Rightarrow> double" where
  "double_add (NaN s f) y = quiet s f"
| "double_add x (NaN t g) = quiet t g"
| "double_add (Inf s) (Inf t) = (if s = t then Inf s else default_NaN)"
| "double_add (Inf s) (Fin t k f) = Inf s"
| "double_add (Fin s m e) (Inf t) = Inf t"
| "double_add (Fin s m e) (Fin t k f) =
     (let c = units s m e + units t k f
      in if c = 0 then Fin (s \<and> t) 0 0 else round_units (c < 0) (nat \<bar>c\<bar>) 1)"

text \<open>
  Division. The quotients of two infinities and of two zeros are invalid; a number that
  is not zero divided by a zero is an infinity.
\<close>

fun double_div :: "double \<Rightarrow> double \<Rightarrow> double" where
  "double_div (NaN s f) y = quiet s f"
| "double_div x (NaN t g) = quiet t g"
| "double_div (Inf s) (Inf t) = default_NaN"
| "double_div (Inf s) (Fin t k f) = Inf (s \<noteq> t)"
| "double_div (Fin s m e) (Inf t) = Fin (s \<noteq> t) 0 0"
| "double_div (Fin s m e) (Fin t k f) =
     (if k = 0 then (if m = 0 then default_NaN else Inf (s \<noteq> t))
      else round_units (s \<noteq> t) (m * 2 ^ e * 2 ^ 1074) (k * 2 ^ f))"

text \<open>The conversion of an \<^verbatim>\<open>int\<close> to \<^verbatim>\<open>double\<close>.\<close>

definition double_of_int :: "int \<Rightarrow> double" where
  "double_of_int i = round_units (i < 0) (nat \<bar>i\<bar> * 2 ^ 1074) 1"

text \<open>
  The comparisons \<^verbatim>\<open>==\<close> and \<^verbatim>\<open><=\<close> of C on doubles: a NaN compares unequal to
  everything, itself included, and the two zeros compare equal.
\<close>

fun double_eq :: "double \<Rightarrow> double \<Rightarrow> bool" where
  "double_eq (NaN s f) y = False"
| "double_eq x (NaN t g) = False"
| "double_eq (Inf s) (Inf t) = (s = t)"
| "double_eq (Inf s) (Fin t k f) = False"
| "double_eq (Fin s m e) (Inf t) = False"
| "double_eq (Fin s m e) (Fin t k f) = (units s m e = units t k f)"

fun double_le :: "double \<Rightarrow> double \<Rightarrow> bool" where
  "double_le (NaN s f) y = False"
| "double_le x (NaN t g) = False"
| "double_le (Inf s) (Inf t) = (s \<or> \<not> t)"
| "double_le (Inf s) (Fin t k f) = s"
| "double_le (Fin s m e) (Inf t) = (\<not> t)"
| "double_le (Fin s m e) (Fin t k f) = (units s m e \<le> units t k f)"

text \<open>
  A platform to run the programs on: binary64 arithmetic, and the generator that the
  C standard gives as an example for \<^verbatim>\<open>rand\<close> and \<^verbatim>\<open>srand\<close>, whose state is the last
  seed.
\<close>

definition example_rand :: "nat \<Rightarrow> nat \<times> nat" where
  "example_rand s =
     (let next = (s * 1103515245 + 12345) mod 2 ^ 32 in (next div 65536 mod 32768, next))"

definition binary64 :: "(double, nat) platform" where
  "binary64 = \<lparr>fadd = double_add, fdiv = double_div, of_int_d = double_of_int,
               srand = (\<lambda>seed. seed), rand = example_rand, RAND_MAX = 32767\<rparr>"

section \<open>Properties of the local summation\<close>

lemma exit_code_values [simp]: "exit_code 0 = 0" "exit_code (- 1) = 255"
  by (simp_all add: exit_code_def)

lemma Vector_sum_loop_outside:
  "q < z + i \<or> z + n \<le> q \<Longrightarrow> Vector_sum_loop P x y z n i h q = h q"
proof (induction P x y z n i h rule: Vector_sum_loop.induct)
  case (1 P x y z n i h)
  show ?case
  proof (cases "i < n")
    case True
    let ?h = "h(z + i := fadd P (h (x + i)) (h (y + i)))"
    from "1.prems" True have q: "q < z + (i + 1) \<or> z + n \<le> q" and ne: "q \<noteq> z + i"
      by auto
    have "Vector_sum_loop P x y z n i h q = Vector_sum_loop P x y z n (i + 1) ?h q"
      using True by (subst Vector_sum_loop.simps) simp
    also have "\<dots> = ?h q" using True q by (rule "1.IH")
    also have "\<dots> = h q" using ne by simp
    finally show ?thesis .
  next
    case False
    then show ?thesis by (subst Vector_sum_loop.simps) simp
  qed
qed

lemma Vector_sum_loop_inside:
  "separate z n x n \<Longrightarrow> separate z n y n \<Longrightarrow> i \<le> j \<Longrightarrow> j < n \<Longrightarrow>
   Vector_sum_loop P x y z n i h (z + j) = fadd P (h (x + j)) (h (y + j))"
proof (induction P x y z n i h rule: Vector_sum_loop.induct)
  case (1 P x y z n i h)
  from "1.prems" have lt: "i < n" by simp
  let ?h = "h(z + i := fadd P (h (x + i)) (h (y + i)))"
  have unfold: "Vector_sum_loop P x y z n i h = Vector_sum_loop P x y z n (i + 1) ?h"
    using lt by (subst Vector_sum_loop.simps) simp
  have xj: "x + j \<noteq> z + i" and yj: "y + j \<noteq> z + i"
    using "1.prems" lt by (auto simp: separate_def)
  show ?case
  proof (cases "i = j")
    case True
    have "Vector_sum_loop P x y z n (i + 1) ?h (z + j) = ?h (z + j)"
      by (rule Vector_sum_loop_outside) (simp add: True)
    with True unfold show ?thesis by simp
  next
    case False
    with "1.prems" have le: "i + 1 \<le> j" by simp
    have "Vector_sum_loop P x y z n (i + 1) ?h (z + j) = fadd P (?h (x + j)) (?h (y + j))"
      using lt "1.prems"(1) "1.prems"(2) le "1.prems"(4) by (rule "1.IH")
    with unfold xj yj show ?thesis by simp
  qed
qed

lemma Parallel_vector_sum_loop_eq:
  "Parallel_vector_sum_loop P x y z n i h = Vector_sum_loop P x y z n i h"
proof (induction P x y z n i h rule: Vector_sum_loop.induct)
  case (1 P x y z n i h)
  show ?case
  proof (cases "i < n")
    case True
    let ?h = "h(z + i := fadd P (h (x + i)) (h (y + i)))"
    have "Parallel_vector_sum_loop P x y z n i h = Parallel_vector_sum_loop P x y z n (i + 1) ?h"
      using True by (subst Parallel_vector_sum_loop.simps) simp
    also have "\<dots> = Vector_sum_loop P x y z n (i + 1) ?h"
      using True by (rule "1.IH")
    also have "\<dots> = Vector_sum_loop P x y z n i h"
      using True by (subst (2) Vector_sum_loop.simps) simp
    finally show ?thesis .
  next
    case False
    then show ?thesis
      by (subst Parallel_vector_sum_loop.simps, subst Vector_sum_loop.simps) simp
  qed
qed

lemma Parallel_vector_sum_eq: "Parallel_vector_sum P x y z n h = Vector_sum P x y z n h"
  by (simp add: Parallel_vector_sum_def Vector_sum_def Parallel_vector_sum_loop_eq)

lemma Vector_sum_outside: "q < z \<or> z + n \<le> q \<Longrightarrow> Vector_sum P x y z n h q = h q"
  unfolding Vector_sum_def by (rule Vector_sum_loop_outside) simp

lemma Vector_sum_inside:
  "separate z n x n \<Longrightarrow> separate z n y n \<Longrightarrow> j < n \<Longrightarrow>
   Vector_sum P x y z n h (z + j) = fadd P (h (x + j)) (h (y + j))"
  unfolding Vector_sum_def by (rule Vector_sum_loop_inside) simp_all

text \<open>
  Claim C1. For two sequences \<open>x\<close> and \<open>y\<close> of length \<open>n\<close> and an output block \<open>z\<close> that
  shares no cell with them, both \<^verbatim>\<open>Vector_sum\<close> and \<^verbatim>\<open>Parallel_vector_sum\<close> leave in
  \<open>z[i]\<close> exactly the result of the one native addition \<open>x[i] + y[i]\<close>, for every index
  \<open>i < n\<close>, and leave \<open>x\<close> and \<open>y\<close> as they were.
\<close>

theorem local_summation_pointwise:
  assumes "separate z n x n" and "separate z n y n" and "i < n"
  shows "Vector_sum P x y z n h (z + i) = fadd P (h (x + i)) (h (y + i)) \<and>
         Vector_sum P x y z n h (x + i) = h (x + i) \<and>
         Vector_sum P x y z n h (y + i) = h (y + i) \<and>
         Parallel_vector_sum P x y z n h (z + i) = fadd P (h (x + i)) (h (y + i)) \<and>
         Parallel_vector_sum P x y z n h (x + i) = h (x + i) \<and>
         Parallel_vector_sum P x y z n h (y + i) = h (y + i)"
proof -
  have z: "Vector_sum P x y z n h (z + i) = fadd P (h (x + i)) (h (y + i))"
    using assms by (rule Vector_sum_inside)
  have "x + i < z \<or> z + n \<le> x + i"
    using assms(1,3) by (auto simp: separate_def)
  then have x: "Vector_sum P x y z n h (x + i) = h (x + i)"
    by (rule Vector_sum_outside)
  have "y + i < z \<or> z + n \<le> y + i"
    using assms(2,3) by (auto simp: separate_def)
  then have y: "Vector_sum P x y z n h (y + i) = h (y + i)"
    by (rule Vector_sum_outside)
  from z x y show ?thesis
    by (simp add: Parallel_vector_sum_eq)
qed

theorem local_summation_pointwise_witness:
  "separate 30 2 10 2 \<and> separate 30 2 20 2 \<and> (1::nat) < 2 \<and>
   Vector_sum binary64 10 20 30 2 (\<lambda>a. Fin False a 0) (30 + 1) =
     double_add (Fin False 11 0) (Fin False 21 0) \<and>
   Vector_sum binary64 10 20 30 2 (\<lambda>a. Fin False a 0) (10 + 1) = Fin False 11 0 \<and>
   Parallel_vector_sum binary64 10 20 30 2 (\<lambda>a. Fin False a 0) (30 + 1) =
     double_add (Fin False 11 0) (Fin False 21 0)"
proof -
  have s: "separate 30 2 10 2" "separate 30 2 20 2" "(1::nat) < 2"
    by (simp_all add: separate_def)
  show ?thesis
    using s local_summation_pointwise [OF s, of binary64 "\<lambda>a. Fin False a 0"]
    by (simp add: binary64_def del: double_add.simps)
qed

section \<open>Properties of the serial program\<close>

lemma Generate_random_vector_loop_frame:
  "rank (Generate_random_vector_loop P a n i p) = rank p \<and>
   stderr (Generate_random_vector_loop P a n i p) = stderr p \<and>
   stdout (Generate_random_vector_loop P a n i p) = stdout p \<and>
   collectives (Generate_random_vector_loop P a n i p) = collectives p \<and>
   exit_status (Generate_random_vector_loop P a n i p) = exit_status p"
proof (induction P a n i p rule: Generate_random_vector_loop.induct)
  case (1 P a n i p)
  show ?case
  proof (cases "i < n")
    case True
    let ?p = "p\<lparr>rng := snd (rand P (rng p)),
                 heap := (heap p)(a + i :=
                   fdiv P (of_int_d P (int (fst (rand P (rng p)) mod 1000))) (of_int_d P 10))\<rparr>"
    have "Generate_random_vector_loop P a n i p = Generate_random_vector_loop P a n (i + 1) ?p"
      by (subst Generate_random_vector_loop.simps) (simp only: True if_True)
    with "1.IH" [OF True] show ?thesis by simp
  next
    case False
    have "Generate_random_vector_loop P a n i p = p"
      by (subst Generate_random_vector_loop.simps) (simp only: False if_False)
    then show ?thesis by simp
  qed
qed

lemma Generate_random_vector_loop_outside:
  "q < a + i \<or> a + n \<le> q \<Longrightarrow> heap (Generate_random_vector_loop P a n i p) q = heap p q"
proof (induction P a n i p rule: Generate_random_vector_loop.induct)
  case (1 P a n i p)
  show ?case
  proof (cases "i < n")
    case True
    from "1.prems" True have q: "q < a + (i + 1) \<or> a + n \<le> q" and ne: "q \<noteq> a + i"
      by auto
    from "1.IH" [OF True q] True ne show ?thesis
      by (subst Generate_random_vector_loop.simps) simp
  next
    case False
    then show ?thesis by (subst Generate_random_vector_loop.simps) simp
  qed
qed

lemma Generate_random_vector_loop_inside:
  "i \<le> j \<Longrightarrow> j < n \<Longrightarrow>
   heap (Generate_random_vector_loop P a n i p) (a + j) =
     fdiv P (of_int_d P (int (rand_output P (rng p) (j - i) mod 1000))) (of_int_d P 10)"
proof (induction P a n i p rule: Generate_random_vector_loop.induct)
  case (1 P a n i p)
  from "1.prems" have lt: "i < n" by simp
  let ?p = "p\<lparr>rng := snd (rand P (rng p)),
               heap := (heap p)(a + i :=
                 fdiv P (of_int_d P (int (fst (rand P (rng p)) mod 1000))) (of_int_d P 10))\<rparr>"
  have unfold: "Generate_random_vector_loop P a n i p = Generate_random_vector_loop P a n (i + 1) ?p"
    using lt by (subst Generate_random_vector_loop.simps) simp
  show ?case
  proof (cases "i = j")
    case True
    have "heap (Generate_random_vector_loop P a n (i + 1) ?p) (a + j) = heap ?p (a + j)"
      by (rule Generate_random_vector_loop_outside) (simp add: True)
    with True unfold show ?thesis by (simp add: rand_output_def)
  next
    case False
    with "1.prems" have le: "i + 1 \<le> j" by simp
    then have j: "j - i = Suc (j - (i + 1))" by simp
    have "heap (Generate_random_vector_loop P a n (i + 1) ?p) (a + j) =
      fdiv P (of_int_d P (int (rand_output P (rng ?p) (j - (i + 1)) mod 1000))) (of_int_d P 10)"
      using lt le "1.prems"(2) by (rule "1.IH")
    with unfold show ?thesis by (simp add: j rand_output_def)
  qed
qed


lemma Generate_random_vector_frame:
  "rank (Generate_random_vector P t a n p) = rank p \<and>
   stderr (Generate_random_vector P t a n p) = stderr p \<and>
   stdout (Generate_random_vector P t a n p) = stdout p \<and>
   collectives (Generate_random_vector P t a n p) = collectives p \<and>
   exit_status (Generate_random_vector P t a n p) = exit_status p"
  using Generate_random_vector_loop_frame [of P a n 0 "p\<lparr>rng := srand P t\<rparr>"]
  by (simp add: Generate_random_vector_def)

lemma Generate_random_vector_outside:
  "q < a \<or> a + n \<le> q \<Longrightarrow> heap (Generate_random_vector P t a n p) q = heap p q"
  using Generate_random_vector_loop_outside [of q a 0 n P "p\<lparr>rng := srand P t\<rparr>"]
  by (simp add: Generate_random_vector_def)

lemma Generate_random_vector_inside:
  "j < n \<Longrightarrow>
   heap (Generate_random_vector P t a n p) (a + j) =
     fdiv P (of_int_d P (int (rand_output P (srand P t) j mod 1000))) (of_int_d P 10)"
  using Generate_random_vector_loop_inside [of 0 j n P a "p\<lparr>rng := srand P t\<rparr>"]
  by (simp add: Generate_random_vector_def)

lemma Print_part_of_vector_loop_frame:
  "rank (Print_part_of_vector_loop b n i p) = rank p \<and>
   heap (Print_part_of_vector_loop b n i p) = heap p \<and>
   rng (Print_part_of_vector_loop b n i p) = rng p \<and>
   stderr (Print_part_of_vector_loop b n i p) = stderr p \<and>
   collectives (Print_part_of_vector_loop b n i p) = collectives p \<and>
   exit_status (Print_part_of_vector_loop b n i p) = exit_status p"
proof (induction b n i p rule: Print_part_of_vector_loop.induct)
  case (1 b n i p)
  show ?case
  proof (cases "i < 10 \<and> i < n")
    case True
    let ?p = "p\<lparr>stdout := stdout p @ [Number (heap p (b + i))]\<rparr>"
    have "Print_part_of_vector_loop b n i p = Print_part_of_vector_loop b n (i + 1) ?p"
      using True by (subst Print_part_of_vector_loop.simps) simp
    with "1.IH" [OF True] show ?thesis by simp
  next
    case False
    have "Print_part_of_vector_loop b n i p = p"
      using False by (subst Print_part_of_vector_loop.simps) auto
    then show ?thesis by simp
  qed
qed

lemma Print_part_of_vector_frame:
  "rank (Print_part_of_vector b n title p) = rank p \<and>
   heap (Print_part_of_vector b n title p) = heap p \<and>
   rng (Print_part_of_vector b n title p) = rng p \<and>
   stderr (Print_part_of_vector b n title p) = stderr p \<and>
   collectives (Print_part_of_vector b n title p) = collectives p \<and>
   exit_status (Print_part_of_vector b n title p) = exit_status p"
  using Print_part_of_vector_loop_frame
    [of b n 0 "p\<lparr>stdout := stdout p @ [Text (title @ newline)]\<rparr>"]
  by (simp add: Print_part_of_vector_def Let_def)

lemma serial_main_failure:
  "x = NULL \<or> y = NULL \<or> z = NULL \<Longrightarrow>
   serial_main P x y z t1 t2 memory =
     (process_start P 0 memory)\<lparr>stderr := [''Can't allocate vectors'' @ newline],
                                  exit_status := Some 255\<rparr>"
  by (auto simp: serial_main_def serial_Allocate_vectors_def running_def process_start_def Let_def)

lemma serial_main_success:
  "x \<noteq> NULL \<Longrightarrow> y \<noteq> NULL \<Longrightarrow> z \<noteq> NULL \<Longrightarrow>
   serial_main P x y z t1 t2 memory =
     (Print_part_of_vector z VECTOR_SIZE ''A part of the sum is''
        ((Generate_random_vector P t2 y VECTOR_SIZE
           (Generate_random_vector P t1 x VECTOR_SIZE (process_start P 0 memory)))
         \<lparr>heap := Vector_sum P x y z VECTOR_SIZE
            (heap (Generate_random_vector P t2 y VECTOR_SIZE
              (Generate_random_vector P t1 x VECTOR_SIZE (process_start P 0 memory))))\<rparr>))
     \<lparr>exit_status := Some 0\<rparr>"
  by (simp add: serial_main_def serial_Allocate_vectors_def running_def process_start_def Let_def)

text \<open>
  Claim C8 says that the serial program exits with a negative status when an allocation
  fails. The status of a process is the low 8 bits of the argument of \<^verbatim>\<open>exit\<close>: with the
  second allocation failing the program ends with the status 255, which is not negative.
\<close>

theorem serial_failure_status_not_negative:
  "exit_status (serial_main binary64 1 0 200001 7 8 (\<lambda>a. Fin False 0 0)) = Some 255 \<and>
   \<not> the (exit_status (serial_main binary64 1 0 200001 7 8 (\<lambda>a. Fin False 0 0))) < 0"
proof -
  have "(1::nat) = NULL \<or> (0::nat) = NULL \<or> (200001::nat) = NULL"
    by (simp add: NULL_def)
  then have "serial_main binary64 1 0 200001 7 8 (\<lambda>a. Fin False 0 0) =
      (process_start binary64 0 (\<lambda>a. Fin False 0 0))
        \<lparr>stderr := [''Can't allocate vectors'' @ newline], exit_status := Some 255\<rparr>"
    by (rule serial_main_failure)
  then show ?thesis by simp
qed

text \<open>
  Claim C8, amended. The serial program ends with status 0, and nothing on standard
  error, when the three allocations succeed; when one of them fails it writes the
  diagnostic \<^verbatim>\<open>Can't allocate vectors\<close> to standard error and ends with the status 255,
  the low 8 bits of the -1 that it passes to \<^verbatim>\<open>exit\<close>, which is not zero.
\<close>

theorem serial_exit_status:
  "(x \<noteq> NULL \<and> y \<noteq> NULL \<and> z \<noteq> NULL \<longrightarrow>
      exit_status (serial_main P x y z t1 t2 memory) = Some 0 \<and>
      stderr (serial_main P x y z t1 t2 memory) = []) \<and>
   (x = NULL \<or> y = NULL \<or> z = NULL \<longrightarrow>
      exit_status (serial_main P x y z t1 t2 memory) = Some (exit_code (- 1)) \<and>
      exit_code (- 1) = 255 \<and>
      exit_status (serial_main P x y z t1 t2 memory) \<noteq> Some 0 \<and>
      stderr (serial_main P x y z t1 t2 memory) = [''Can't allocate vectors'' @ newline])"
proof (intro conjI impI)
  assume ok: "x \<noteq> NULL \<and> y \<noteq> NULL \<and> z \<noteq> NULL"
  then show "exit_status (serial_main P x y z t1 t2 memory) = Some 0"
    by (simp add: serial_main_success)
  from ok show "stderr (serial_main P x y z t1 t2 memory) = []"
    by (simp add: serial_main_success Print_part_of_vector_frame Generate_random_vector_frame
        process_start_def)
next
  assume bad: "x = NULL \<or> y = NULL \<or> z = NULL"
  then show "exit_status (serial_main P x y z t1 t2 memory) = Some (exit_code (- 1))"
    by (simp add: serial_main_failure)
  show "exit_code (- 1) = 255"
    by (simp add: exit_code_def)
  from bad show "exit_status (serial_main P x y z t1 t2 memory) \<noteq> Some 0"
    by (simp add: serial_main_failure)
  from bad show "stderr (serial_main P x y z t1 t2 memory) = [''Can't allocate vectors'' @ newline]"
    by (simp add: serial_main_failure)
qed

theorem serial_exit_status_witness:
  "exit_status (serial_main binary64 1 100001 200001 7 8 (\<lambda>a. Fin False 0 0)) = Some 0 \<and>
   stderr (serial_main binary64 1 100001 200001 7 8 (\<lambda>a. Fin False 0 0)) = [] \<and>
   exit_status (serial_main binary64 1 0 200001 7 8 (\<lambda>a. Fin False 0 0)) = Some 255 \<and>
   stderr (serial_main binary64 1 0 200001 7 8 (\<lambda>a. Fin False 0 0)) =
     [''Can't allocate vectors'' @ newline]"
  using serial_exit_status [of 1 100001 200001 binary64 7 8 "\<lambda>a. Fin False 0 0"]
    serial_exit_status [of 1 0 200001 binary64 7 8 "\<lambda>a. Fin False 0 0"]
  by (simp add: NULL_def)


lemma read_array_eqI:
  "(\<And>i. i < n \<Longrightarrow> h (p + i) = h' (p' + i)) \<Longrightarrow> read_array h p n = read_array h' p' n"
  by (simp add: read_array_def)

lemma nth_read_array: "i < n \<Longrightarrow> read_array h p n ! i = h (p + i)"
  by (simp add: read_array_def)

lemma serial_main_inputs:
  assumes "x \<noteq> NULL" and "y \<noteq> NULL" and "z \<noteq> NULL"
    and "separate x VECTOR_SIZE y VECTOR_SIZE"
    and "separate z VECTOR_SIZE x VECTOR_SIZE" and "separate z VECTOR_SIZE y VECTOR_SIZE"
    and "i < VECTOR_SIZE"
  shows "heap (serial_main P x y z t1 t2 memory) (x + i) =
           fdiv P (of_int_d P (int (rand_output P (srand P t1) i mod 1000))) (of_int_d P 10)"
    and "heap (serial_main P x y z t1 t2 memory) (y + i) =
           fdiv P (of_int_d P (int (rand_output P (srand P t2) i mod 1000))) (of_int_d P 10)"
proof -
  let ?p2 = "Generate_random_vector P t1 x VECTOR_SIZE (process_start P 0 memory)"
  let ?p3 = "Generate_random_vector P t2 y VECTOR_SIZE ?p2"
  have final: "heap (serial_main P x y z t1 t2 memory) = Vector_sum P x y z VECTOR_SIZE (heap ?p3)"
    using assms(1-3) by (simp add: serial_main_success Print_part_of_vector_frame)
  have "x + i < z \<or> z + VECTOR_SIZE \<le> x + i"
    using assms(5,7) by (auto simp: separate_def)
  then have "heap (serial_main P x y z t1 t2 memory) (x + i) = heap ?p3 (x + i)"
    unfolding final by (rule Vector_sum_outside)
  also have "x + i < y \<or> y + VECTOR_SIZE \<le> x + i"
    using assms(4,7) by (auto simp: separate_def)
  then have "heap ?p3 (x + i) = heap ?p2 (x + i)"
    by (rule Generate_random_vector_outside)
  also have "\<dots> = fdiv P (of_int_d P (int (rand_output P (srand P t1) i mod 1000))) (of_int_d P 10)"
    using assms(7) by (rule Generate_random_vector_inside)
  finally show "heap (serial_main P x y z t1 t2 memory) (x + i) =
    fdiv P (of_int_d P (int (rand_output P (srand P t1) i mod 1000))) (of_int_d P 10)" .
  have "y + i < z \<or> z + VECTOR_SIZE \<le> y + i"
    using assms(6,7) by (auto simp: separate_def)
  then have "heap (serial_main P x y z t1 t2 memory) (y + i) = heap ?p3 (y + i)"
    unfolding final by (rule Vector_sum_outside)
  also have "\<dots> = fdiv P (of_int_d P (int (rand_output P (srand P t2) i mod 1000))) (of_int_d P 10)"
    using assms(7) by (rule Generate_random_vector_inside)
  finally show "heap (serial_main P x y z t1 t2 memory) (y + i) =
    fdiv P (of_int_d P (int (rand_output P (srand P t2) i mod 1000))) (of_int_d P 10)" .
qed

text \<open>
  Claim C10. The vector that \<^verbatim>\<open>Generate_random_vector\<close> produces is a function of the
  seed alone: two calls with the same seed \<open>t\<close> give the same elements, whatever the
  blocks and the states of the two processes before. The serial program seeds each of
  its two calls with the time of the call, so when both calls see the same time the
  input vectors \<open>x\<close> and \<open>y\<close> are equal.
\<close>

theorem generation_deterministic:
  "read_array (heap (Generate_random_vector P t a n p)) a n =
     read_array (heap (Generate_random_vector P t a' n p')) a' n \<and>
   (t1 = t2 \<and> x \<noteq> NULL \<and> y \<noteq> NULL \<and> z \<noteq> NULL \<and>
    separate x VECTOR_SIZE y VECTOR_SIZE \<and>
    separate z VECTOR_SIZE x VECTOR_SIZE \<and> separate z VECTOR_SIZE y VECTOR_SIZE \<longrightarrow>
    read_array (heap (serial_main P x y z t1 t2 memory)) x VECTOR_SIZE =
      read_array (heap (serial_main P x y z t1 t2 memory)) y VECTOR_SIZE)"
proof (intro conjI impI)
  show "read_array (heap (Generate_random_vector P t a n p)) a n =
    read_array (heap (Generate_random_vector P t a' n p')) a' n"
    by (rule read_array_eqI) (simp add: Generate_random_vector_inside)
next
  assume h: "t1 = t2 \<and> x \<noteq> NULL \<and> y \<noteq> NULL \<and> z \<noteq> NULL \<and>
    separate x VECTOR_SIZE y VECTOR_SIZE \<and>
    separate z VECTOR_SIZE x VECTOR_SIZE \<and> separate z VECTOR_SIZE y VECTOR_SIZE"
  show "read_array (heap (serial_main P x y z t1 t2 memory)) x VECTOR_SIZE =
    read_array (heap (serial_main P x y z t1 t2 memory)) y VECTOR_SIZE"
  proof (rule read_array_eqI)
    fix i assume "i < VECTOR_SIZE"
    with h show "heap (serial_main P x y z t1 t2 memory) (x + i) =
      heap (serial_main P x y z t1 t2 memory) (y + i)"
      by (simp add: serial_main_inputs)
  qed
qed

theorem generation_deterministic_witness:
  "read_array (heap (serial_main binary64 1 100001 200001 7 7 (\<lambda>a. Fin False 0 0))) 1 VECTOR_SIZE =
     read_array (heap (serial_main binary64 1 100001 200001 7 7 (\<lambda>a. Fin False 0 0))) 100001 VECTOR_SIZE"
  using generation_deterministic [of binary64 7 1 2 "process_start binary64 0 (\<lambda>a. Fin False 0 0)" 1
      "process_start binary64 0 (\<lambda>a. Fin False 0 0)" 7 7 1 100001 200001 "\<lambda>a. Fin False 0 0"]
  by (simp add: NULL_def separate_def VECTOR_SIZE_def)

section \<open>Properties of the distributed program: failure\<close>

lemma MPI_Allreduce_MIN_zero:
  assumes "\<forall>v \<in> set vs. 0 \<le> v" and "0 \<in> set vs"
  shows "MPI_Allreduce_MIN vs = 0"
  unfolding MPI_Allreduce_MIN_def using assms by (intro Min_eqI) auto

lemma MPI_Allreduce_MIN_one:
  assumes "\<forall>v \<in> set vs. v = 1" and "vs \<noteq> []"
  shows "MPI_Allreduce_MIN vs = 1"
proof -
  from assms have "set vs = {1}" by (cases vs) auto
  then show ?thesis by (simp add: MPI_Allreduce_MIN_def)
qed

lemma Check_for_error_failed:
  assumes "\<forall>q \<in> set comm. local_ok (rank q) = 0 \<or> local_ok (rank q) = 1"
    and "\<exists>q \<in> set comm. local_ok (rank q) = 0"
  shows "Check_for_error local_ok fname message comm =
    map (\<lambda>p. p\<lparr>stderr := (if rank p = 0
                           then stderr p @ [''Proc 0 > In '' @ fname @ '', '' @ message @ backslash_n]
                           else stderr p),
               collectives := collectives p @ [Allreduce, Finalize],
               exit_status := Some 255\<rparr>) comm"
proof -
  have "MPI_Allreduce_MIN (map (\<lambda>q. local_ok (rank q)) comm) = 0"
    using assms by (intro MPI_Allreduce_MIN_zero) auto
  then show ?thesis
    by (auto simp: Check_for_error_def Let_def decimal.simps)
qed

lemma Check_for_error_passed:
  assumes "\<forall>q \<in> set comm. local_ok (rank q) = 1"
  shows "Check_for_error local_ok fname message comm =
    map (\<lambda>p. p\<lparr>collectives := collectives p @ [Allreduce]\<rparr>) comm"
proof (cases "comm = []")
  case True
  then show ?thesis by (simp add: Check_for_error_def)
next
  case False
  have "MPI_Allreduce_MIN (map (\<lambda>q. local_ok (rank q)) comm) = 1"
    using assms False by (intro MPI_Allreduce_MIN_one) auto
  then show ?thesis
    by (simp add: Check_for_error_def Let_def)
qed

lemma collective_call_running:
  "list_all running comm \<Longrightarrow> collective_call comm f = f comm"
  by (simp add: collective_call_def)

lemma collective_call_terminated:
  "comm \<noteq> [] \<Longrightarrow> list_all (\<lambda>p. \<not> running p) comm \<Longrightarrow> collective_call comm f = Inr comm"
  by (cases comm) (auto simp: collective_call_def)


lemma map_local_step_terminated:
  "list_all (\<lambda>p. \<not> running p) comm \<Longrightarrow> map (local_step f) comm = comm"
  by (induction comm) (simp_all add: local_step_def)

lemma map_local_step_running:
  "list_all running comm \<Longrightarrow> map (local_step f) comm = map f comm"
  by (induction comm) (simp_all add: local_step_def)

lemma length_MPI_Init: "length (MPI_Init P comm_sz memory) = comm_sz"
  by (simp add: MPI_Init_def)

lemma nth_MPI_Init:
  "r < comm_sz \<Longrightarrow> MPI_Init P comm_sz memory ! r = process_start P r (memory r)"
  by (simp add: MPI_Init_def)

lemma rank_MPI_Init: "q \<in> set (MPI_Init P comm_sz memory) \<Longrightarrow> rank q < comm_sz"
  by (auto simp: MPI_Init_def process_start_def)

lemma concat_stderr_root:
  "0 < comm_sz \<Longrightarrow> concat (map (\<lambda>r. if r = 0 then [m] else []) [0..<comm_sz]) = [m]"
proof -
  assume "0 < comm_sz"
  then have "[0..<comm_sz] = 0 # [1..<comm_sz]" by (simp add: upt_conv_Cons)
  moreover have "concat (map (\<lambda>r. if r = 0 then [m] else []) [1..<comm_sz]) = []"
    by (induction comm_sz) auto
  ultimately show ?thesis by simp
qed

lemma mpi_main_allocation_failure:
  assumes "0 < comm_sz"
    and "r < comm_sz"
    and "local_x M r = NULL \<or> local_y M r = NULL \<or> local_z M r = NULL"
  shows "mpi_main P M comm_sz memory =
    Inr (map (\<lambda>p. p\<lparr>stderr := (if rank p = 0
                 then stderr p @ [''Proc 0 > In Allocate_vectors, Can't allocate local arrays''
                                  @ backslash_n]
                 else stderr p),
               collectives := collectives p @ [Allreduce, Finalize],
               exit_status := Some 255\<rparr>) (MPI_Init P comm_sz memory))"
proof -
  let ?comm = "MPI_Init P comm_sz memory"
  let ?ok = "\<lambda>r. if local_x M r = NULL \<or> local_y M r = NULL \<or> local_z M r = NULL
                 then 0 else (1::int)"
  define comm1 where "comm1 = map (\<lambda>p. p\<lparr>stderr := (if rank p = 0
                 then stderr p @ [''Proc 0 > In Allocate_vectors, Can't allocate local arrays''
                                  @ backslash_n]
                 else stderr p),
               collectives := collectives p @ [Allreduce, Finalize],
               exit_status := Some 255\<rparr>) ?comm"
  have "?comm ! r \<in> set ?comm" using assms(2) by (simp add: length_MPI_Init)
  moreover have "?ok (rank (?comm ! r)) = 0"
    using assms(2,3) by (simp add: nth_MPI_Init process_start_def)
  ultimately have some: "\<exists>q \<in> set ?comm. ?ok (rank q) = 0" by blast
  have alloc: "mpi_Allocate_vectors (local_x M) (local_y M) (local_z M) l ?comm = comm1" for l
    unfolding mpi_Allocate_vectors_def comm1_def
    by (subst Check_for_error_failed [OF _ some]) simp_all
  have stopped: "list_all (\<lambda>p. \<not> running p) comm1"
    by (simp add: comm1_def list_all_iff running_def)
  have nonempty: "comm1 \<noteq> []"
    using assms(1) by (simp add: comm1_def MPI_Init_def)
  have "mpi_main P M comm_sz memory = Inr comm1"
    by (simp add: mpi_main_def mpi_run_def Read_n_def Let_def alloc
        collective_call_terminated [OF nonempty stopped] map_local_step_terminated [OF stopped])
  then show ?thesis by (simp only: comm1_def)
qed

text \<open>
  Claim C4. When the allocation of a block fails on any one rank \<open>r\<close> (such as rank 2 of
  4), the run of the distributed program ends without a deadlock: every process,
  also one whose own allocations succeeded, has entered the reduction and
  \<^verbatim>\<open>MPI_Finalize\<close> and nothing else (so no scatter), and has left with the status 255 of
  \<^verbatim>\<open>exit(-1)\<close>. Exactly one diagnostic is written to standard error in the whole
  communicator, by rank 0. (The program ends the diagnostic with the two characters
  backslash and n, not with a line feed.)
\<close>

theorem allocation_failure_stops_every_worker:
  assumes "0 < comm_sz"
    and "r < comm_sz"
    and "local_x M r = NULL \<or> local_y M r = NULL \<or> local_z M r = NULL"
  shows "\<exists>comm. mpi_main P M comm_sz memory = Inr comm \<and> length comm = comm_sz \<and>
           list_all (\<lambda>p. exit_status p = Some 255 \<and> collectives p = [Allreduce, Finalize]) comm \<and>
           stderr (comm ! 0) =
             [''Proc 0 > In Allocate_vectors, Can't allocate local arrays'' @ backslash_n] \<and>
           concat (map stderr comm) =
             [''Proc 0 > In Allocate_vectors, Can't allocate local arrays'' @ backslash_n]"
proof -
  let ?m = "''Proc 0 > In Allocate_vectors, Can't allocate local arrays'' @ backslash_n"
  let ?comm = "map (\<lambda>p. p\<lparr>stderr := (if rank p = 0 then stderr p @ [?m] else stderr p),
               collectives := collectives p @ [Allreduce, Finalize],
               exit_status := Some 255\<rparr>) (MPI_Init P comm_sz memory)"
  have run: "mpi_main P M comm_sz memory = Inr ?comm"
    using assms by (rule mpi_main_allocation_failure)
  have len: "length ?comm = comm_sz"
    by (simp add: length_MPI_Init)
  have all: "list_all (\<lambda>p. exit_status p = Some 255 \<and> collectives p = [Allreduce, Finalize]) ?comm"
    by (simp add: list_all_iff MPI_Init_def process_start_def)
  have root: "stderr (?comm ! 0) = [?m]"
    using assms(1) by (simp add: MPI_Init_def process_start_def)
  have "map stderr ?comm = map (\<lambda>r. if r = 0 then [?m] else []) [0..<comm_sz]"
    by (simp add: MPI_Init_def process_start_def)
  then have out: "concat (map stderr ?comm) = [?m]"
    using assms(1) by (simp only: concat_stderr_root)
  from run len all root out show ?thesis by blast
qed

theorem allocation_failure_stops_every_worker_witness:
  "\<exists>comm. mpi_main binary64
             \<lparr>local_x = (\<lambda>r. 10), local_y = (\<lambda>r. if r = 2 then NULL else 20),
              local_z = (\<lambda>r. 30), a_x = 100, a_y = 200, b_z = 300\<rparr> 4 (\<lambda>r a. Fin False 0 0) = Inr comm \<and> length comm = 4 \<and>
           list_all (\<lambda>p. exit_status p = Some 255 \<and> collectives p = [Allreduce, Finalize]) comm \<and>
           stderr (comm ! 0) =
             [''Proc 0 > In Allocate_vectors, Can't allocate local arrays'' @ backslash_n] \<and>
           concat (map stderr comm) =
             [''Proc 0 > In Allocate_vectors, Can't allocate local arrays'' @ backslash_n]"
  using allocation_failure_stops_every_worker [of 4 2
      "\<lparr>local_x = (\<lambda>r. 10), local_y = (\<lambda>r. if r = 2 then NULL else 20),
        local_z = (\<lambda>r. 30), a_x = 100, a_y = 200, b_z = 300\<rparr>" binary64 "\<lambda>r a. Fin False 0 0"]
  by simp

section \<open>Properties of the distributed program: the steps\<close>

lemma write_array_inside: "j < length vs \<Longrightarrow> write_array p vs h (p + j) = vs ! j"
  by (simp add: write_array_def)

lemma write_array_outside: "q < p \<or> p + length vs \<le> q \<Longrightarrow> write_array p vs h q = h q"
  by (auto simp: write_array_def)

lemma block_index_unique:
  fixes c :: nat
  assumes "j < c" and "j' < c" and "r * c + j = r' * c + j'"
  shows "r = r'"
proof -
  have "(r * c + j) div c = r" using assms(1) by simp
  moreover have "(r' * c + j') div c = r'" using assms(2) by simp
  ultimately show ?thesis using assms(3) by simp
qed

lemma block_index_bound:
  fixes c :: nat
  assumes "r < p" and "j < c"
  shows "r * c + j < p * c"
proof -
  have "r * c + j < r * c + c" using assms(2) by simp
  also have "\<dots> = Suc r * c" by simp
  also have "\<dots> \<le> p * c" using assms(1) by (intro mult_le_mono1) simp
  finally show ?thesis .
qed

lemma Read_vector_loop_frame:
  "rank (Read_vector_loop P a n i p) = rank p \<and>
   stderr (Read_vector_loop P a n i p) = stderr p \<and>
   stdout (Read_vector_loop P a n i p) = stdout p \<and>
   collectives (Read_vector_loop P a n i p) = collectives p \<and>
   exit_status (Read_vector_loop P a n i p) = exit_status p"
proof (induction P a n i p rule: Read_vector_loop.induct)
  case (1 P a n i p)
  show ?case
  proof (cases "i < n")
    case True
    let ?p = "p\<lparr>rng := snd (rand P (rng p)),
                 heap := (heap p)(a + i :=
                   fdiv P (of_int_d P (int (fst (rand P (rng p)))))
                          (of_int_d P (int (RAND_MAX P))))\<rparr>"
    have "Read_vector_loop P a n i p = Read_vector_loop P a n (i + 1) ?p"
      using True by (subst Read_vector_loop.simps) simp
    with "1.IH" [OF True] show ?thesis by simp
  next
    case False
    have "Read_vector_loop P a n i p = p"
      using False by (subst Read_vector_loop.simps) simp
    then show ?thesis by simp
  qed
qed

lemma Read_vector_loop_rng:
  "rng (Read_vector_loop P a n i p) = rand_state P (rng p) (n - i)"
proof (induction P a n i p rule: Read_vector_loop.induct)
  case (1 P a n i p)
  show ?case
  proof (cases "i < n")
    case True
    let ?p = "p\<lparr>rng := snd (rand P (rng p)),
                 heap := (heap p)(a + i :=
                   fdiv P (of_int_d P (int (fst (rand P (rng p)))))
                          (of_int_d P (int (RAND_MAX P))))\<rparr>"
    have "Read_vector_loop P a n i p = Read_vector_loop P a n (i + 1) ?p"
      using True by (subst Read_vector_loop.simps) simp
    moreover from True have "n - i = Suc (n - (i + 1))" by simp
    ultimately show ?thesis using "1.IH" [OF True] by simp
  next
    case False
    have "Read_vector_loop P a n i p = p"
      using False by (subst Read_vector_loop.simps) simp
    with False show ?thesis by simp
  qed
qed

lemma Read_vector_loop_outside:
  "q < a + i \<or> a + n \<le> q \<Longrightarrow> heap (Read_vector_loop P a n i p) q = heap p q"
proof (induction P a n i p rule: Read_vector_loop.induct)
  case (1 P a n i p)
  show ?case
  proof (cases "i < n")
    case True
    from "1.prems" True have q: "q < a + (i + 1) \<or> a + n \<le> q" and ne: "q \<noteq> a + i"
      by auto
    from "1.IH" [OF True q] True ne show ?thesis
      by (subst Read_vector_loop.simps) simp
  next
    case False
    then show ?thesis by (subst Read_vector_loop.simps) simp
  qed
qed

lemma Read_vector_loop_inside:
  "i \<le> j \<Longrightarrow> j < n \<Longrightarrow>
   heap (Read_vector_loop P a n i p) (a + j) = random_fraction P (rng p) (j - i)"
proof (induction P a n i p rule: Read_vector_loop.induct)
  case (1 P a n i p)
  from "1.prems" have lt: "i < n" by simp
  let ?p = "p\<lparr>rng := snd (rand P (rng p)),
               heap := (heap p)(a + i :=
                 fdiv P (of_int_d P (int (fst (rand P (rng p)))))
                        (of_int_d P (int (RAND_MAX P))))\<rparr>"
  have unfold: "Read_vector_loop P a n i p = Read_vector_loop P a n (i + 1) ?p"
    using lt by (subst Read_vector_loop.simps) simp
  show ?case
  proof (cases "i = j")
    case True
    have "heap (Read_vector_loop P a n (i + 1) ?p) (a + j) = heap ?p (a + j)"
      by (rule Read_vector_loop_outside) (simp add: True)
    with True unfold show ?thesis by (simp add: random_fraction_def rand_output_def)
  next
    case False
    with "1.prems" have le: "i + 1 \<le> j" by simp
    then have j: "j - i = Suc (j - (i + 1))" by simp
    have "heap (Read_vector_loop P a n (i + 1) ?p) (a + j) =
      random_fraction P (rng ?p) (j - (i + 1))"
      using lt le "1.prems"(2) by (rule "1.IH")
    with unfold show ?thesis by (simp add: j random_fraction_def rand_output_def)
  qed
qed

lemma Print_vector_loop_frame:
  "rank (Print_vector_loop b n i p) = rank p \<and>
   heap (Print_vector_loop b n i p) = heap p \<and>
   rng (Print_vector_loop b n i p) = rng p \<and>
   stderr (Print_vector_loop b n i p) = stderr p \<and>
   collectives (Print_vector_loop b n i p) = collectives p \<and>
   exit_status (Print_vector_loop b n i p) = exit_status p"
proof (induction b n i p rule: Print_vector_loop.induct)
  case (1 b n i p)
  show ?case
  proof (cases "i < n")
    case True
    let ?p = "p\<lparr>stdout := stdout p @ [Number (heap p (b + i))]\<rparr>"
    have "Print_vector_loop b n i p = Print_vector_loop b n (i + 1) ?p"
      using True by (subst Print_vector_loop.simps) simp
    with "1.IH" [OF True] show ?thesis by simp
  next
    case False
    have "Print_vector_loop b n i p = p"
      using False by (subst Print_vector_loop.simps) simp
    then show ?thesis by simp
  qed
qed

lemma Print_vector_loop_stdout:
  "stdout (Print_vector_loop b n i p) = stdout p @ map (\<lambda>j. Number (heap p (b + j))) [i..<n]"
proof (induction b n i p rule: Print_vector_loop.induct)
  case (1 b n i p)
  show ?case
  proof (cases "i < n")
    case True
    let ?p = "p\<lparr>stdout := stdout p @ [Number (heap p (b + i))]\<rparr>"
    have "Print_vector_loop b n i p = Print_vector_loop b n (i + 1) ?p"
      using True by (subst Print_vector_loop.simps) simp
    with "1.IH" [OF True] True show ?thesis by (simp add: upt_conv_Cons)
  next
    case False
    have "Print_vector_loop b n i p = p"
      using False by (subst Print_vector_loop.simps) simp
    with False show ?thesis by simp
  qed
qed

text \<open>The gather: each rank's block lands in its own place.\<close>

lemma gather_fold_outside:
  "(\<And>p. p \<in> set qs \<Longrightarrow> c < recvbuf + rank p * k \<or> recvbuf + rank p * k + k \<le> c) \<Longrightarrow>
   fold (\<lambda>q. write_array (recvbuf + rank q * k) (read_array (heap q) (sendbuf (rank q)) k)) qs h c
     = h c"
proof (induction qs arbitrary: h)
  case Nil
  then show ?case by simp
next
  case (Cons q qs)
  have "fold (\<lambda>q. write_array (recvbuf + rank q * k) (read_array (heap q) (sendbuf (rank q)) k))
          qs (write_array (recvbuf + rank q * k) (read_array (heap q) (sendbuf (rank q)) k) h) c
        = write_array (recvbuf + rank q * k) (read_array (heap q) (sendbuf (rank q)) k) h c"
    by (rule Cons.IH) (simp add: Cons.prems)
  also have "\<dots> = h c"
    using Cons.prems [of q] by (intro write_array_outside) (simp add: read_array_def)
  finally show ?case by simp
qed

lemma gather_fold_inside:
  "distinct (map rank qs) \<Longrightarrow> p \<in> set qs \<Longrightarrow> j < k \<Longrightarrow>
   fold (\<lambda>q. write_array (recvbuf + rank q * k) (read_array (heap q) (sendbuf (rank q)) k)) qs h
     (recvbuf + (rank p * k + j)) = heap p (sendbuf (rank p) + j)"
proof (induction qs arbitrary: h)
  case Nil
  then show ?case by simp
next
  case (Cons q qs)
  let ?w = "\<lambda>q. write_array (recvbuf + rank q * k) (read_array (heap q) (sendbuf (rank q)) k)"
  show ?case
  proof (cases "p \<in> set qs")
    case True
    with Cons show ?thesis by simp
  next
    case False
    with Cons.prems have pq: "p = q" by simp
    have other: "recvbuf + (rank q * k + j) < recvbuf + rank p' * k \<or>
                 recvbuf + rank p' * k + k \<le> recvbuf + (rank q * k + j)"
      if "p' \<in> set qs" for p'
    proof (rule ccontr)
      assume "\<not> ?thesis"
      then obtain j' where "j' < k" and "rank q * k + j = rank p' * k + j'"
        by (metis add.assoc le_Suc_ex nat_add_left_cancel_less not_le_imp_less)
      with \<open>j < k\<close> have "rank q = rank p'" by (rule block_index_unique)
      with that Cons.prems(1) show False by auto
    qed
    have "fold ?w qs (?w q h) (recvbuf + (rank q * k + j)) = ?w q h (recvbuf + (rank q * k + j))"
      by (rule gather_fold_outside) (rule other)
    also have "\<dots> = heap q (sendbuf (rank q) + j)"
      using \<open>j < k\<close> write_array_inside [of j "read_array (heap q) (sendbuf (rank q)) k"
          "recvbuf + rank q * k" h]
      by (simp add: read_array_def add.assoc)
    finally show ?thesis by (simp add: pq)
  qed
qed

lemma Read_vector_result:
  assumes "Read_vector P la ln n name a comm = Inr comm'"
  shows "comm' = map (\<lambda>p. MPI_Scatter (heap (Read_vector_loop P a n 0 (comm ! 0))) a ln (la (rank p))
                        (if rank p = 0 then Read_vector_loop P a n 0 (comm ! 0) else p)) comm"
proof -
  have eq: "(if c then f x else f y) = f (if c then x else y)" for c and f :: "'x \<Rightarrow> 'y" and x y
    by simp
  from assms show ?thesis
    by (simp add: Read_vector_def Let_def eq split: if_splits)
qed

lemma Read_vector_succeeds:
  "a \<noteq> NULL \<Longrightarrow> \<exists>comm'. Read_vector P la ln n name a comm = Inr comm'"
  by (simp add: Read_vector_def Let_def)

lemma Read_vector_fields:
  assumes "Read_vector P la ln n name a comm = Inr comm'"
    and "r < length comm" and "rank (comm ! r) = r" and "rank (comm ! 0) = 0"
  shows "length comm' = length comm \<and> rank (comm' ! r) = r \<and>
         exit_status (comm' ! r) = exit_status (comm ! r) \<and>
         stderr (comm' ! r) = stderr (comm ! r) \<and>
         stdout (comm' ! r) = stdout (comm ! r) \<and>
         collectives (comm' ! r) = collectives (comm ! r) @ [Scatter]"
proof -
  note res = Read_vector_result [OF assms(1)]
  show ?thesis
  proof (cases "r = 0")
    case True
    with assms(2-4) show ?thesis
      by (simp add: res MPI_Scatter_def Read_vector_loop_frame)
  next
    case False
    with assms(2-4) show ?thesis
      by (simp add: res MPI_Scatter_def)
  qed
qed

lemma Read_vector_rng:
  assumes "Read_vector P la ln n name a comm = Inr comm'"
    and "0 < length comm" and "rank (comm ! 0) = 0"
  shows "rng (comm' ! 0) = rand_state P (rng (comm ! 0)) n"
  using assms(2,3)
  by (simp add: Read_vector_result [OF assms(1)] MPI_Scatter_def Read_vector_loop_rng)

lemma Read_vector_scattered:
  assumes "Read_vector P la ln n name a comm = Inr comm'"
    and "r < length comm" and "rank (comm ! r) = r" and "rank (comm ! 0) = 0"
    and "j < ln"
  shows "heap (comm' ! r) (la r + j) = heap (Read_vector_loop P a n 0 (comm ! 0)) (a + (r * ln + j))"
proof -
  let ?R = "Read_vector_loop P a n 0 (comm ! 0)"
  have "heap (comm' ! r) (la r + j) =
    write_array (la r) (read_array (heap ?R) (a + r * ln) ln)
      (heap (if r = 0 then ?R else comm ! r)) (la r + j)"
    using assms(2,3,4)
    by (auto simp: Read_vector_result [OF assms(1)] MPI_Scatter_def Read_vector_loop_frame)
  also have "\<dots> = read_array (heap ?R) (a + r * ln) ln ! j"
    using assms(5) by (intro write_array_inside) (simp add: read_array_def)
  also have "\<dots> = heap ?R (a + (r * ln + j))"
    using assms(5) by (simp add: read_array_def add.assoc)
  finally show ?thesis .
qed

lemma Read_vector_received:
  assumes "Read_vector P la ln n name a comm = Inr comm'"
    and "r < length comm" and "rank (comm ! r) = r" and "rank (comm ! 0) = 0"
    and "j < ln" and "r * ln + j < n"
  shows "heap (comm' ! r) (la r + j) = random_fraction P (rng (comm ! 0)) (r * ln + j)"
proof -
  have "heap (comm' ! r) (la r + j) =
    heap (Read_vector_loop P a n 0 (comm ! 0)) (a + (r * ln + j))"
    using assms(1-5) by (rule Read_vector_scattered)
  also have "\<dots> = random_fraction P (rng (comm ! 0)) (r * ln + j - 0)"
    using assms(6) by (intro Read_vector_loop_inside) simp_all
  finally show ?thesis by simp
qed

lemma Read_vector_kept:
  assumes "Read_vector P la ln n name a comm = Inr comm'"
    and "r < length comm" and "rank (comm ! r) = r" and "rank (comm ! 0) = 0"
    and "q < la r \<or> la r + ln \<le> q"
    and "r = 0 \<longrightarrow> q < a \<or> a + n \<le> q"
  shows "heap (comm' ! r) q = heap (comm ! r) q"
proof -
  let ?R = "Read_vector_loop P a n 0 (comm ! 0)"
  have "heap (comm' ! r) q =
    write_array (la r) (read_array (heap ?R) (a + r * ln) ln)
      (heap (if r = 0 then ?R else comm ! r)) q"
    using assms(2,3,4)
    by (auto simp: Read_vector_result [OF assms(1)] MPI_Scatter_def Read_vector_loop_frame)
  also have "\<dots> = heap (if r = 0 then ?R else comm ! r) q"
    using assms(5) by (intro write_array_outside) (simp add: read_array_def)
  also have "\<dots> = heap (comm ! r) q"
  proof (cases "r = 0")
    case True
    with assms(6) have "q < a + 0 \<or> a + n \<le> q" by simp
    then have "heap ?R q = heap (comm ! 0) q" by (rule Read_vector_loop_outside)
    with True show ?thesis by simp
  next
    case False
    then show ?thesis by simp
  qed
  finally show ?thesis .
qed

lemma Print_vector_result:
  assumes "b \<noteq> NULL" and "list_all running comm"
  shows "Print_vector lb ln n title b comm =
    Inr (map (\<lambda>p. if rank p = 0
                   then (Print_vector_loop b n 0
                          ((MPI_Gather (map (\<lambda>p. p\<lparr>collectives := collectives p @ [Allreduce]\<rparr>) comm)
                              lb ln b p)
                           \<lparr>stdout := stdout p @ [Text (title @ backslash_n)]\<rparr>))
                        \<lparr>stdout := stdout (Print_vector_loop b n 0
                          ((MPI_Gather (map (\<lambda>p. p\<lparr>collectives := collectives p @ [Allreduce]\<rparr>) comm)
                              lb ln b p)
                           \<lparr>stdout := stdout p @ [Text (title @ backslash_n)]\<rparr>)) @ [Text backslash_n]\<rparr>
                   else MPI_Gather (map (\<lambda>p. p\<lparr>collectives := collectives p @ [Allreduce]\<rparr>) comm)
                          lb ln b p)
          (map (\<lambda>p. p\<lparr>collectives := collectives p @ [Allreduce]\<rparr>) comm))"
proof -
  define comm1 where "comm1 = map (\<lambda>p. p\<lparr>collectives := collectives p @ [Allreduce]\<rparr>) comm"
  have check: "Check_for_error (\<lambda>r. if r = 0 \<and> b = NULL then 0 else 1) ''Print_vector''
        ''Can't allocate temporary vector'' comm = comm1"
    unfolding comm1_def using assms(1) by (intro Check_for_error_passed) simp
  have run: "list_all running comm1"
    using assms(2) by (simp add: comm1_def list_all_iff running_def)
  have gather_stdout: "stdout (MPI_Gather c lb ln b p) = stdout p" for c and p :: "('a, 'b) process"
    by (simp add: MPI_Gather_def)
  show ?thesis
    unfolding Print_vector_def Let_def check collective_call_running [OF run]
    by (simp add: gather_stdout flip: comm1_def)
qed


lemma ranked_nth: "map rank comm = [0..<length comm] \<Longrightarrow> r < length comm \<Longrightarrow> rank (comm ! r) = r"
  by (metis add_0 nth_map nth_upt)

lemma Print_vector_fields:
  assumes "Print_vector lb ln n title b comm = Inr comm'"
    and "b \<noteq> NULL" and "list_all running comm"
    and "r < length comm" and "rank (comm ! r) = r"
  shows "length comm' = length comm \<and> rank (comm' ! r) = r \<and>
         exit_status (comm' ! r) = exit_status (comm ! r) \<and>
         stderr (comm' ! r) = stderr (comm ! r) \<and>
         collectives (comm' ! r) = collectives (comm ! r) @ [Allreduce, Gather]"
proof -
  define comm1 where "comm1 = map (\<lambda>p. p\<lparr>collectives := collectives p @ [Allreduce]\<rparr>) comm"
  define g where "g = (\<lambda>p. if rank p = 0
                   then (Print_vector_loop b n 0
                          ((MPI_Gather comm1 lb ln b p)
                           \<lparr>stdout := stdout p @ [Text (title @ backslash_n)]\<rparr>))
                        \<lparr>stdout := stdout (Print_vector_loop b n 0
                          ((MPI_Gather comm1 lb ln b p)
                           \<lparr>stdout := stdout p @ [Text (title @ backslash_n)]\<rparr>)) @ [Text backslash_n]\<rparr>
                   else MPI_Gather comm1 lb ln b p)"
  have "Print_vector lb ln n title b comm = Inr (map g comm1)"
    unfolding comm1_def g_def using assms(2,3) by (rule Print_vector_result)
  with assms(1) have comm': "comm' = map g comm1" by simp
  have len: "length comm' = length comm" by (simp add: comm' comm1_def)
  have nth: "comm' ! r = g ((comm ! r)\<lparr>collectives := collectives (comm ! r) @ [Allreduce]\<rparr>)"
    using assms(4) by (simp add: comm' comm1_def)
  show ?thesis
  proof (cases "r = 0")
    case True
    with assms(5) have "rank (comm ! 0) = 0" by simp
    with True len show ?thesis
      unfolding nth by (simp add: g_def MPI_Gather_def Print_vector_loop_frame)
  next
    case False
    with assms(5) len show ?thesis
      unfolding nth by (simp add: g_def MPI_Gather_def)
  qed
qed

lemma Print_vector_root:
  assumes "Print_vector lb ln n title b comm = Inr comm'"
    and "b \<noteq> NULL" and "list_all running comm"
    and "0 < length comm" and "rank (comm ! 0) = 0"
  shows "heap (comm' ! 0) =
           fold (\<lambda>q. write_array (b + rank q * ln) (read_array (heap q) (lb (rank q)) ln))
             comm (heap (comm ! 0)) \<and>
         stdout (comm' ! 0) = stdout (comm ! 0) @ [Text (title @ backslash_n)] @
           map Number (read_array (heap (comm' ! 0)) b n) @ [Text backslash_n]"
proof -
  define comm1 where "comm1 = map (\<lambda>p. p\<lparr>collectives := collectives p @ [Allreduce]\<rparr>) comm"
  define g where "g = (\<lambda>p. if rank p = 0
                   then (Print_vector_loop b n 0
                          ((MPI_Gather comm1 lb ln b p)
                           \<lparr>stdout := stdout p @ [Text (title @ backslash_n)]\<rparr>))
                        \<lparr>stdout := stdout (Print_vector_loop b n 0
                          ((MPI_Gather comm1 lb ln b p)
                           \<lparr>stdout := stdout p @ [Text (title @ backslash_n)]\<rparr>)) @ [Text backslash_n]\<rparr>
                   else MPI_Gather comm1 lb ln b p)"
  define G where "G = fold (\<lambda>q. write_array (b + rank q * ln) (read_array (heap q) (lb (rank q)) ln))
             comm (heap (comm ! 0))"
  have "Print_vector lb ln n title b comm = Inr (map g comm1)"
    unfolding comm1_def g_def using assms(2,3) by (rule Print_vector_result)
  with assms(1) have comm': "comm' = map g comm1" by simp
  have nth: "comm' ! 0 = g ((comm ! 0)\<lparr>collectives := collectives (comm ! 0) @ [Allreduce]\<rparr>)"
    using assms(4) by (simp add: comm' comm1_def)
  have fold_eq: "fold (\<lambda>q. write_array (b + rank q * ln) (read_array (heap q) (lb (rank q)) ln))
      comm1 h =
    fold (\<lambda>q. write_array (b + rank q * ln) (read_array (heap q) (lb (rank q)) ln)) comm h" for h
    by (simp add: comm1_def fold_map comp_def)
  have gathered: "heap (MPI_Gather comm1 lb ln b
      ((comm ! 0)\<lparr>collectives := collectives (comm ! 0) @ [Allreduce]\<rparr>)) = G"
    using assms(5) by (simp add: MPI_Gather_def fold_eq G_def)
  have out: "stdout (MPI_Gather comm1 lb ln b
      ((comm ! 0)\<lparr>collectives := collectives (comm ! 0) @ [Allreduce]\<rparr>)) = stdout (comm ! 0)"
    by (simp add: MPI_Gather_def)
  have "heap (comm' ! 0) = G \<and>
    stdout (comm' ! 0) = stdout (comm ! 0) @ [Text (title @ backslash_n)] @
           map Number (read_array G b n) @ [Text backslash_n]"
    unfolding nth using assms(5)
    by (simp add: g_def Print_vector_loop_frame Print_vector_loop_stdout gathered out read_array_def)
  then show ?thesis by (simp add: G_def)
qed

lemma Print_vector_succeeds:
  "b \<noteq> NULL \<Longrightarrow> list_all running comm \<Longrightarrow> \<exists>comm'. Print_vector lb ln n title b comm = Inr comm'"
  by (simp add: Print_vector_result)

lemma Print_vector_gathered:
  assumes "Print_vector lb ln n title b comm = Inr comm'"
    and "b \<noteq> NULL" and "list_all running comm"
    and "map rank comm = [0..<length comm]"
    and "r < length comm" and "j < ln"
  shows "heap (comm' ! 0) (b + (r * ln + j)) = heap (comm ! r) (lb r + j)"
proof -
  from assms(5) have len: "0 < length comm" by (cases comm) simp_all
  have d: "distinct (map rank comm)" by (simp add: assms(4))
  have r: "rank (comm ! r) = r" using assms(4,5) by (rule ranked_nth)
  have r0: "rank (comm ! 0) = 0" using assms(4) len by (rule ranked_nth)
  have mem: "comm ! r \<in> set comm" using assms(5) by simp
  from gather_fold_inside [OF d mem assms(6), of b lb "heap (comm ! 0)"]
  show ?thesis
    by (simp add: Print_vector_root [OF assms(1-3) len r0] r)
qed

section \<open>Properties of the distributed program: a whole run\<close>

lemma allocatedD:
  assumes "allocated M comm_sz n local_n"
  shows "r < comm_sz \<Longrightarrow> local_x M r \<noteq> NULL \<and> local_y M r \<noteq> NULL \<and> local_z M r \<noteq> NULL \<and>
           separate (local_x M r) local_n (local_y M r) local_n \<and>
           separate (local_z M r) local_n (local_x M r) local_n \<and>
           separate (local_z M r) local_n (local_y M r) local_n"
    and "a_x M \<noteq> NULL" and "a_y M \<noteq> NULL" and "b_z M \<noteq> NULL"
    and "separate (a_y M) n (local_x M 0) local_n"
  using assms by (simp_all add: allocated_def list_all_iff)

lemma list_all_nth: "list_all Q xs = (\<forall>i < length xs. Q (xs ! i))"
  by (simp add: list_all_length)

lemma mpi_run_success:
  assumes sz: "0 < comm_sz" and cap: "comm_sz * local_n \<le> n"
    and alloc: "allocated M comm_sz n local_n"
  shows "\<exists>comm. mpi_run P M n local_n (MPI_Init P comm_sz memory) = Inr comm \<and>
      length comm = comm_sz \<and>
      (\<forall>r < comm_sz. rank (comm ! r) = r \<and> exit_status (comm ! r) = Some 0 \<and>
         stderr (comm ! r) = [] \<and>
         collectives (comm ! r) = [Allreduce, Scatter, Scatter, Allreduce, Gather, Finalize]) \<and>
      (\<forall>r < comm_sz. \<forall>j < local_n.
         heap (comm ! 0) (b_z M + (r * local_n + j)) =
           fadd P (random_fraction P (srand P 1) (r * local_n + j))
                  (random_fraction P (rand_state P (srand P 1) n) (r * local_n + j))) \<and>
      stdout (comm ! 0) = [Text (''The sum is'' @ backslash_n)] @
        map Number (read_array (heap (comm ! 0)) (b_z M) n) @ [Text backslash_n]"
proof -
  let ?lx = "local_x M" and ?ly = "local_y M" and ?lz = "local_z M"
  define w0 :: "('a, 'b) process list" where "w0 = MPI_Init P comm_sz memory"
  note A = allocatedD [OF alloc]
  have len0: "length w0 = comm_sz" by (simp add: w0_def length_MPI_Init)
  have nth0: "w0 ! r = process_start P r (memory r)" if "r < comm_sz" for r
    using that by (simp add: w0_def nth_MPI_Init)
  \<comment> \<open>the allocation and the agreement on it\<close>
  define w1 where "w1 = map (\<lambda>p. p\<lparr>collectives := collectives p @ [Allreduce]\<rparr>) w0"
  have "\<forall>q \<in> set w0. (if ?lx (rank q) = NULL \<or> ?ly (rank q) = NULL \<or> ?lz (rank q) = NULL
                         then 0 else (1::int)) = 1"
    using A(1) rank_MPI_Init [of _ P comm_sz memory] by (auto simp: w0_def)
  then have s1: "mpi_Allocate_vectors ?lx ?ly ?lz local_n w0 = w1"
    unfolding mpi_Allocate_vectors_def w1_def by (rule Check_for_error_passed)
  have len1: "length w1 = comm_sz" by (simp add: w1_def len0)
  have nth1: "w1 ! r = (process_start P r (memory r))\<lparr>collectives := [Allreduce]\<rparr>"
    if "r < comm_sz" for r
    using that by (simp add: w1_def len0 nth0 process_start_def)
  have run1: "list_all running w1"
    by (simp add: list_all_nth len1 nth1 running_def process_start_def)
  have rank1: "rank (w1 ! r) = r" if "r < comm_sz" for r
    using that by (simp add: nth1 process_start_def)
  \<comment> \<open>the vector x\<close>
  obtain w2 where s2: "Read_vector P ?lx local_n n ''x'' (a_x M) w1 = Inr w2"
    using Read_vector_succeeds [OF A(2)] by blast
  have f2: "length w2 = comm_sz \<and> rank (w2 ! r) = r \<and> exit_status (w2 ! r) = None \<and>
      stderr (w2 ! r) = [] \<and> collectives (w2 ! r) = [Allreduce, Scatter]"
    if "r < comm_sz" for r
    using Read_vector_fields [OF s2, of r] that sz rank1 len1
    by (simp add: nth1 process_start_def)
  have rng2: "rng (w2 ! 0) = rand_state P (srand P 1) n"
    using Read_vector_rng [OF s2] sz rank1 len1 by (simp add: nth1 process_start_def)
  have x2: "heap (w2 ! r) (?lx r + j) = random_fraction P (srand P 1) (r * local_n + j)"
    if "r < comm_sz" and "j < local_n" for r j
  proof -
    have "r * local_n + j < comm_sz * local_n"
      using that by (rule block_index_bound)
    with cap have "r * local_n + j < n" by simp
    with Read_vector_received [OF s2, of r j] that sz rank1 len1 show ?thesis
      by (simp add: nth1 process_start_def)
  qed
  have len2: "length w2 = comm_sz" using f2 [OF sz] by simp
  have run2: "list_all running w2"
    using f2 by (simp add: list_all_nth len2 running_def)
  have rank2: "rank (w2 ! r) = r" if "r < comm_sz" for r
    using f2 that by simp
  \<comment> \<open>the vector y\<close>
  obtain w3 where s3: "Read_vector P ?ly local_n n ''y'' (a_y M) w2 = Inr w3"
    using Read_vector_succeeds [OF A(3)] by blast
  have f3: "length w3 = comm_sz \<and> rank (w3 ! r) = r \<and> exit_status (w3 ! r) = None \<and>
      stderr (w3 ! r) = [] \<and> collectives (w3 ! r) = [Allreduce, Scatter, Scatter]"
    if "r < comm_sz" for r
    using Read_vector_fields [OF s3, of r] that sz rank2 len2 f2 by simp
  have y3: "heap (w3 ! r) (?ly r + j) =
      random_fraction P (rand_state P (srand P 1) n) (r * local_n + j)"
    if "r < comm_sz" and "j < local_n" for r j
  proof -
    have "r * local_n + j < comm_sz * local_n"
      using that by (rule block_index_bound)
    with cap have "r * local_n + j < n" by simp
    with Read_vector_received [OF s3, of r j] that sz rank2 len2 rng2 show ?thesis
      by simp
  qed
  have x3: "heap (w3 ! r) (?lx r + j) = random_fraction P (srand P 1) (r * local_n + j)"
    if "r < comm_sz" and "j < local_n" for r j
  proof -
    have "?lx r + j < ?ly r \<or> ?ly r + local_n \<le> ?lx r + j"
      using A(1) [OF that(1)] that(2) by (auto simp: separate_def)
    moreover have "r = 0 \<longrightarrow> ?lx r + j < a_y M \<or> a_y M + n \<le> ?lx r + j"
      using A(5) that(2) by (auto simp: separate_def)
    ultimately have "heap (w3 ! r) (?lx r + j) = heap (w2 ! r) (?lx r + j)"
      using Read_vector_kept [OF s3, of r "?lx r + j"] that sz rank2 len2 by simp
    with x2 [OF that] show ?thesis by simp
  qed
  have len3: "length w3 = comm_sz" using f3 [OF sz] by simp
  have run3: "list_all running w3"
    using f3 by (simp add: list_all_nth len3 running_def)
  \<comment> \<open>the local sums\<close>
  define sum where "sum = (\<lambda>p :: ('a, 'b) process. p\<lparr>heap := Parallel_vector_sum P (?lx (rank p))
                          (?ly (rank p)) (?lz (rank p)) local_n (heap p)\<rparr>)"
  define w4 where "w4 = map sum w3"
  have s4: "map (local_step sum) w3 = w4"
    unfolding w4_def using run3 by (rule map_local_step_running)
  have len4: "length w4 = comm_sz" by (simp add: w4_def len3)
  have f4: "rank (w4 ! r) = r \<and> exit_status (w4 ! r) = None \<and>
      stderr (w4 ! r) = [] \<and> collectives (w4 ! r) = [Allreduce, Scatter, Scatter]"
    if "r < comm_sz" for r
    using f3 [OF that] that by (simp add: w4_def len3 sum_def)
  have z4: "heap (w4 ! r) (?lz r + j) =
      fadd P (random_fraction P (srand P 1) (r * local_n + j))
             (random_fraction P (rand_state P (srand P 1) n) (r * local_n + j))"
    if "r < comm_sz" and "j < local_n" for r j
  proof -
    have "heap (w4 ! r) = Vector_sum P (?lx r) (?ly r) (?lz r) local_n (heap (w3 ! r))"
      using f3 [OF that(1)] that(1) by (simp add: w4_def len3 sum_def Parallel_vector_sum_eq)
    moreover have "Vector_sum P (?lx r) (?ly r) (?lz r) local_n (heap (w3 ! r)) (?lz r + j) =
      fadd P (heap (w3 ! r) (?lx r + j)) (heap (w3 ! r) (?ly r + j))"
      using A(1) [OF that(1)] that(2) by (intro Vector_sum_inside) simp_all
    ultimately show ?thesis by (simp add: x3 [OF that] y3 [OF that])
  qed
  have run4: "list_all running w4"
    using f4 by (simp add: list_all_nth len4 running_def)
  have ranked4: "map rank w4 = [0..<length w4]"
    by (rule nth_equalityI) (simp_all add: len4 f4)
  \<comment> \<open>the gather and the output\<close>
  obtain w5 where s5: "Print_vector ?lz local_n n ''The sum is'' (b_z M) w4 = Inr w5"
    using Print_vector_succeeds [OF A(4) run4] by blast
  have f5: "length w5 = comm_sz \<and> rank (w5 ! r) = r \<and> exit_status (w5 ! r) = None \<and>
      stderr (w5 ! r) = [] \<and>
      collectives (w5 ! r) = [Allreduce, Scatter, Scatter, Allreduce, Gather]"
    if "r < comm_sz" for r
    using Print_vector_fields [OF s5 A(4) run4, of r] that f4 [OF that] len4 by simp
  have g5: "heap (w5 ! 0) (b_z M + (r * local_n + j)) =
      fadd P (random_fraction P (srand P 1) (r * local_n + j))
             (random_fraction P (rand_state P (srand P 1) n) (r * local_n + j))"
    if "r < comm_sz" and "j < local_n" for r j
    using Print_vector_gathered [OF s5 A(4) run4 ranked4, of r j] that len4 z4 by simp
  have "stdout (w4 ! 0) = []"
    using sz Read_vector_fields [OF s3, of 0] Read_vector_fields [OF s2, of 0] rank1 rank2 len1 len2
    by (simp add: w4_def len3 sum_def nth1 process_start_def)
  then have o5: "stdout (w5 ! 0) = [Text (''The sum is'' @ backslash_n)] @
      map Number (read_array (heap (w5 ! 0)) (b_z M) n) @ [Text backslash_n]"
    using Print_vector_root [OF s5 A(4) run4, of ] sz len4 f4 [OF sz] by simp
  have len5: "length w5 = comm_sz" using f5 [OF sz] by simp
  have run5: "list_all running w5"
    using f5 by (simp add: list_all_nth len5 running_def)
  \<comment> \<open>the end of main\<close>
  define finish where "finish = (\<lambda>p :: ('a, 'b) process.
      p\<lparr>collectives := collectives p @ [Finalize], exit_status := Some (exit_code 0)\<rparr>)"
  define w6 where "w6 = map finish w5"
  have s6: "map (local_step finish) w5 = w6"
    unfolding w6_def using run5 by (rule map_local_step_running)
  have run: "mpi_run P M n local_n w0 = Inr w6"
    unfolding mpi_run_def Let_def s1 collective_call_running [OF run1] s2 sum.case
      collective_call_running [OF run2] s3 sum_def [symmetric] s4
      collective_call_running [OF run4] s5 finish_def [symmetric] s6 ..
  have len6: "length w6 = comm_sz" by (simp add: w6_def len5)
  have f6: "rank (w6 ! r) = r \<and> exit_status (w6 ! r) = Some 0 \<and> stderr (w6 ! r) = [] \<and>
      collectives (w6 ! r) = [Allreduce, Scatter, Scatter, Allreduce, Gather, Finalize]"
    if "r < comm_sz" for r
    using f5 [OF that] that by (simp add: w6_def len5 finish_def)
  have h6: "heap (w6 ! 0) = heap (w5 ! 0)" and o6: "stdout (w6 ! 0) = stdout (w5 ! 0)"
    using sz by (simp_all add: w6_def len5 finish_def)
  from run len6 f6 g5 o5 show ?thesis
    unfolding w0_def [symmetric] h6 [symmetric] o6 [symmetric] by blast
qed

lemma block_index:
  fixes local_n :: nat
  assumes "i < comm_sz * local_n"
  shows "i div local_n < comm_sz" and "i mod local_n < local_n"
    and "i div local_n * local_n + i mod local_n = i"
proof -
  from assms have pos: "0 < local_n" by (cases local_n) simp_all
  then show "i mod local_n < local_n" by simp
  show "i div local_n < comm_sz"
    using assms pos by (simp add: less_mult_imp_div_less)
  show "i div local_n * local_n + i mod local_n = i" by simp
qed

text \<open>
  Claim C2. When the number of processes divides the vector order \<open>n\<close>, the distributed
  program (rank 0 generates \<open>x\<close> and \<open>y\<close>, block \<open>k\<close> of each is scattered to rank \<open>k\<close>,
  every rank applies \<^verbatim>\<open>Parallel_vector_sum\<close> to its blocks of \<open>local_n\<close> elements, and
  the blocks are gathered in rank order) runs to its end, and the vector that rank 0
  collects and prints is the vector that the serial \<^verbatim>\<open>Vector_sum\<close> computes from the
  same \<open>x\<close> and \<open>y\<close>, held anywhere in a memory \<open>H\<close>. The generator and the arithmetic
  are arbitrary, so \<open>x\<close> and \<open>y\<close> range over all pairs of vectors.
\<close>

theorem distributed_equals_serial:
  assumes "0 < comm_sz" and "n = comm_sz * local_n"
    and "allocated M comm_sz n local_n"
    and "separate Z n X n" and "separate Z n Y n"
    and "read_array H X n = map (random_fraction P (srand P 1)) [0..<n]"
    and "read_array H Y n = map (random_fraction P (rand_state P (srand P 1) n)) [0..<n]"
  shows "\<exists>comm. mpi_run P M n local_n (MPI_Init P comm_sz memory) = Inr comm \<and>
           read_array (heap (comm ! 0)) (b_z M) n = read_array (Vector_sum P X Y Z n H) Z n \<and>
           stdout (comm ! 0) = [Text (''The sum is'' @ backslash_n)] @
             map Number (read_array (Vector_sum P X Y Z n H) Z n) @ [Text backslash_n]"
proof -
  from assms(2) have cap: "comm_sz * local_n \<le> n" by simp
  from mpi_run_success [OF assms(1) cap assms(3), of P memory]
  obtain comm where run: "mpi_run P M n local_n (MPI_Init P comm_sz memory) = Inr comm"
    and cells: "\<And>r j. r < comm_sz \<Longrightarrow> j < local_n \<Longrightarrow>
      heap (comm ! 0) (b_z M + (r * local_n + j)) =
        fadd P (random_fraction P (srand P 1) (r * local_n + j))
               (random_fraction P (rand_state P (srand P 1) n) (r * local_n + j))"
    and out: "stdout (comm ! 0) = [Text (''The sum is'' @ backslash_n)] @
        map Number (read_array (heap (comm ! 0)) (b_z M) n) @ [Text backslash_n]"
    by blast
  have same: "read_array (heap (comm ! 0)) (b_z M) n = read_array (Vector_sum P X Y Z n H) Z n"
  proof (rule read_array_eqI)
    fix i assume i: "i < n"
    then have bi: "i < comm_sz * local_n" by (simp add: assms(2))
    have x: "H (X + i) = random_fraction P (srand P 1) i"
      using arg_cong [OF assms(6), of "\<lambda>l. l ! i"] i by (simp add: nth_read_array)
    have y: "H (Y + i) = random_fraction P (rand_state P (srand P 1) n) i"
      using arg_cong [OF assms(7), of "\<lambda>l. l ! i"] i by (simp add: nth_read_array)
    have "heap (comm ! 0) (b_z M + (i div local_n * local_n + i mod local_n)) =
      fadd P (random_fraction P (srand P 1) (i div local_n * local_n + i mod local_n))
        (random_fraction P (rand_state P (srand P 1) n) (i div local_n * local_n + i mod local_n))"
      using block_index(1,2) [OF bi] by (rule cells)
    then have "heap (comm ! 0) (b_z M + i) = fadd P (H (X + i)) (H (Y + i))"
      by (simp only: block_index(3) [OF bi] x y)
    also have "\<dots> = Vector_sum P X Y Z n H (Z + i)"
      using assms(4,5) i by (rule Vector_sum_inside [symmetric])
    finally show "heap (comm ! 0) (b_z M + i) = Vector_sum P X Y Z n H (Z + i)" .
  qed
  from run same out show ?thesis by auto
qed


lemma read_write_same: "length vs = n \<Longrightarrow> read_array (write_array p vs h) p n = vs"
  by (rule nth_equalityI) (simp_all add: read_array_def write_array_def)

lemma read_write_other:
  "separate p n q (length vs) \<Longrightarrow> read_array (write_array q vs h) p n = read_array h p n"
  by (rule read_array_eqI) (auto simp: write_array_def separate_def)

theorem distributed_equals_serial_witness:
  "(0::nat) < 2 \<and> (4::nat) = 2 * 2 \<and>
   allocated \<lparr>local_x = (\<lambda>r. 10), local_y = (\<lambda>r. 20), local_z = (\<lambda>r. 30),
              a_x = 100, a_y = 200, b_z = 300\<rparr> 2 4 2 \<and>
   separate 20 4 0 4 \<and> separate 20 4 10 4 \<and>
   (\<exists>comm. mpi_run binary64
        \<lparr>local_x = (\<lambda>r. 10), local_y = (\<lambda>r. 20), local_z = (\<lambda>r. 30),
         a_x = 100, a_y = 200, b_z = 300\<rparr> 4 2 (MPI_Init binary64 2 (\<lambda>r a. Fin False 0 0)) = Inr comm \<and>
      read_array (heap (comm ! 0)) 300 4 =
        read_array (Vector_sum binary64 0 10 20 4
          (write_array 0 (map (random_fraction binary64 (srand binary64 1)) [0..<4])
            (write_array 10
              (map (random_fraction binary64 (rand_state binary64 (srand binary64 1) 4)) [0..<4])
              (\<lambda>a. Fin False 0 0)))) 20 4 \<and>
      stdout (comm ! 0) = [Text (''The sum is'' @ backslash_n)] @
        map Number (read_array (Vector_sum binary64 0 10 20 4
          (write_array 0 (map (random_fraction binary64 (srand binary64 1)) [0..<4])
            (write_array 10
              (map (random_fraction binary64 (rand_state binary64 (srand binary64 1) 4)) [0..<4])
              (\<lambda>a. Fin False 0 0)))) 20 4) @ [Text backslash_n])"
proof -
  let ?M = "\<lparr>local_x = (\<lambda>r. 10), local_y = (\<lambda>r. 20), local_z = (\<lambda>r. 30),
              a_x = 100, a_y = 200, b_z = 300\<rparr>"
  let ?xs = "map (random_fraction binary64 (srand binary64 1)) [0..<4]"
  let ?ys = "map (random_fraction binary64 (rand_state binary64 (srand binary64 1) 4)) [0..<4]"
  let ?H = "write_array 0 ?xs (write_array 10 ?ys (\<lambda>a. Fin False 0 0))"
  have h1: "(0::nat) < 2" and h2: "(4::nat) = 2 * 2" by simp_all
  have h3: "allocated ?M 2 4 2"
    by (simp add: allocated_def separate_def NULL_def list_all_iff)
  have h4: "separate 20 4 0 4" and h5: "separate 20 4 10 4"
    by (simp_all add: separate_def)
  have h6: "read_array ?H 0 4 = ?xs"
    by (rule read_write_same) simp
  have "read_array ?H 10 4 = read_array (write_array 10 ?ys (\<lambda>a. Fin False 0 0)) 10 4"
    by (rule read_write_other) (simp add: separate_def)
  also have "\<dots> = ?ys"
    by (rule read_write_same) simp
  finally have h7: "read_array ?H 10 4 = ?ys" .
  have b: "b_z ?M = 300" by simp
  note r = distributed_equals_serial [OF h1 h2 h3 h4 h5 h6 h7, of "\<lambda>r a. Fin False 0 0", unfolded b]
  from h1 h2 h3 h4 h5 r show ?thesis by (intro conjI)
qed

text \<open>
  Claim C5. For \<open>n = comm_sz * local_n\<close> the blocks of the ranks \<open>0, ..., comm_sz - 1\<close>
  cover the indices below \<open>n\<close> and no two of them share an index. In \<^verbatim>\<open>Read_vector\<close>
  the scatter hands block \<open>r\<close> of the root's vector \<open>a\<close> to rank \<open>r\<close>, element by
  element in order; in \<^verbatim>\<open>Print_vector\<close> the gather puts the block of rank \<open>r\<close> at the
  indices of block \<open>r\<close> of the root's vector \<open>b\<close>.
\<close>

theorem block_distribution:
  assumes "0 < comm_sz" and "n = comm_sz * local_n"
    and "map rank comm = [0..<comm_sz]" and "list_all running comm"
    and "a \<noteq> NULL" and "b \<noteq> NULL"
  shows "(\<Union>r \<in> {..<comm_sz}. block local_n r) = {..<n} \<and>
         (\<forall>r < comm_sz. \<forall>s < comm_sz. r \<noteq> s \<longrightarrow> block local_n r \<inter> block local_n s = {}) \<and>
         (\<exists>comm'. Read_vector P local_a local_n n vec_name a comm = Inr comm' \<and>
            (\<forall>r < comm_sz. \<forall>i \<in> block local_n r.
               heap (comm' ! r) (local_a r + (i - r * local_n)) =
                 heap (Read_vector_loop P a n 0 (comm ! 0)) (a + i))) \<and>
         (\<exists>comm'. Print_vector local_b local_n n title b comm = Inr comm' \<and>
            (\<forall>r < comm_sz. \<forall>i \<in> block local_n r.
               heap (comm' ! 0) (b + i) = heap (comm ! r) (local_b r + (i - r * local_n))))"
proof (intro conjI)
  have len: "length comm = comm_sz"
    using arg_cong [OF assms(3), of length] by simp
  have ranked: "map rank comm = [0..<length comm]"
    by (simp add: assms(3) len)
  have rank: "rank (comm ! r) = r" if "r < comm_sz" for r
    using ranked that by (intro ranked_nth) (simp_all add: len)
  show "(\<Union>r \<in> {..<comm_sz}. block local_n r) = {..<n}"
  proof (intro equalityI subsetI)
    fix i assume "i \<in> (\<Union>r \<in> {..<comm_sz}. block local_n r)"
    then obtain r where r: "r < comm_sz" and "i \<in> block local_n r" by auto
    then have "i - r * local_n < local_n" and "i = r * local_n + (i - r * local_n)"
      by (auto simp: block_def)
    with block_index_bound [OF r, of "i - r * local_n" local_n] show "i \<in> {..<n}"
      by (simp add: assms(2))
  next
    fix i assume "i \<in> {..<n}"
    then have i: "i < comm_sz * local_n" by (simp add: assms(2))
    from block_index(2,3) [OF i]
    have "i div local_n * local_n \<le> i" and "i < i div local_n * local_n + local_n"
      by linarith+
    then have "i \<in> block local_n (i div local_n)"
      by (simp add: block_def)
    with block_index(1) [OF i] show "i \<in> (\<Union>r \<in> {..<comm_sz}. block local_n r)" by blast
  qed
  have "block local_n r \<inter> block local_n s = {}" if "r \<noteq> s" for r s
  proof (rule ccontr)
    assume "block local_n r \<inter> block local_n s \<noteq> {}"
    then obtain i where "i \<in> block local_n r" and "i \<in> block local_n s" by blast
    then have "i - r * local_n < local_n" and "i - s * local_n < local_n"
      and "r * local_n + (i - r * local_n) = s * local_n + (i - s * local_n)"
      by (auto simp: block_def)
    then have "r = s" by (rule block_index_unique)
    with that show False by simp
  qed
  then show "\<forall>r < comm_sz. \<forall>s < comm_sz. r \<noteq> s \<longrightarrow> block local_n r \<inter> block local_n s = {}"
    by simp
  show "\<exists>comm'. Read_vector P local_a local_n n vec_name a comm = Inr comm' \<and>
            (\<forall>r < comm_sz. \<forall>i \<in> block local_n r.
               heap (comm' ! r) (local_a r + (i - r * local_n)) =
                 heap (Read_vector_loop P a n 0 (comm ! 0)) (a + i))"
  proof -
    from Read_vector_succeeds [OF assms(5)]
    obtain comm' where s: "Read_vector P local_a local_n n vec_name a comm = Inr comm'"
      by blast
    have "heap (comm' ! r) (local_a r + (i - r * local_n)) =
        heap (Read_vector_loop P a n 0 (comm ! 0)) (a + i)"
      if "r < comm_sz" and "i \<in> block local_n r" for r i
    proof -
      from that(2) have j: "i - r * local_n < local_n" and i: "r * local_n + (i - r * local_n) = i"
        by (auto simp: block_def)
      from Read_vector_scattered [OF s _ rank [OF that(1)] rank [OF assms(1)] j] that(1)
      show ?thesis by (simp add: len i)
    qed
    with s show ?thesis by blast
  qed
  show "\<exists>comm'. Print_vector local_b local_n n title b comm = Inr comm' \<and>
            (\<forall>r < comm_sz. \<forall>i \<in> block local_n r.
               heap (comm' ! 0) (b + i) = heap (comm ! r) (local_b r + (i - r * local_n)))"
  proof -
    from Print_vector_succeeds [OF assms(6,4)]
    obtain comm' where s: "Print_vector local_b local_n n title b comm = Inr comm'"
      by blast
    have "heap (comm' ! 0) (b + i) = heap (comm ! r) (local_b r + (i - r * local_n))"
      if "r < comm_sz" and "i \<in> block local_n r" for r i
    proof -
      from that(2) have j: "i - r * local_n < local_n" and i: "r * local_n + (i - r * local_n) = i"
        by (auto simp: block_def)
      from that(1) have "r < length comm" by (simp add: len)
      from Print_vector_gathered [OF s assms(6,4) ranked this j]
      show ?thesis by (simp add: i)
    qed
    with s show ?thesis by blast
  qed
qed


lemma ranked_MPI_Init: "map rank (MPI_Init P comm_sz memory) = [0..<comm_sz]"
  by (simp add: MPI_Init_def process_start_def comp_def)

lemma running_MPI_Init: "list_all running (MPI_Init P comm_sz memory)"
  by (simp add: MPI_Init_def process_start_def running_def list_all_iff)

theorem block_distribution_witness:
  "map rank (MPI_Init binary64 2 (\<lambda>r a. Fin False 0 0)) = [0..<2] \<and>
   list_all running (MPI_Init binary64 2 (\<lambda>r a. Fin False 0 0)) \<and>
   (\<Union>r \<in> {..<2}. block 2 r) = {..<4} \<and> block 2 0 \<inter> block 2 1 = {} \<and> 3 \<in> block 2 1 \<and>
   (\<exists>comm'. Read_vector binary64 (\<lambda>r. 10) 2 4 ''x'' 100 (MPI_Init binary64 2 (\<lambda>r a. Fin False 0 0))
              = Inr comm' \<and>
      heap (comm' ! 1) (10 + (3 - 1 * 2)) =
        heap (Read_vector_loop binary64 100 4 0 (MPI_Init binary64 2 (\<lambda>r a. Fin False 0 0) ! 0)) (100 + 3)) \<and>
   (\<exists>comm'. Print_vector (\<lambda>r. 30) 2 4 ''The sum is'' 300 (MPI_Init binary64 2 (\<lambda>r a. Fin False 0 0))
              = Inr comm' \<and>
      heap (comm' ! 0) (300 + 3) = heap (MPI_Init binary64 2 (\<lambda>r a. Fin False 0 0) ! 1) (30 + (3 - 1 * 2)))"
proof -
  let ?comm = "MPI_Init binary64 2 (\<lambda>r a. Fin False 0 0)"
  have h1: "(0::nat) < 2" and h2: "(4::nat) = 2 * 2" and h5: "100 \<noteq> NULL" and h6: "300 \<noteq> NULL"
    by (simp_all add: NULL_def)
  have h3: "map rank ?comm = [0..<2]"
    by (rule ranked_MPI_Init)
  have h4: "list_all running ?comm"
    by (rule running_MPI_Init)
  have m: "3 \<in> block 2 1" and r: "(1::nat) < 2" "(0::nat) < 2" "(0::nat) \<noteq> 1"
    by (simp_all add: block_def)
  note T = block_distribution [OF h1 h2 h3 h4 h5 h6, of binary64 "\<lambda>r. 10" "''x''" "\<lambda>r. 30"
      "''The sum is''"]
  from T have u: "(\<Union>r \<in> {..<2}. block 2 r) = {..<4}" by (rule conjunct1)
  from T r have d: "block 2 0 \<inter> block 2 1 = {}" by blast
  from T obtain c1 where "Read_vector binary64 (\<lambda>r. 10) 2 4 ''x'' 100 ?comm = Inr c1"
    and "\<forall>r < 2. \<forall>i \<in> block 2 r. heap (c1 ! r) (10 + (i - r * 2)) =
      heap (Read_vector_loop binary64 100 4 0 (?comm ! 0)) (100 + i)"
    by blast
  with m r have s: "\<exists>comm'. Read_vector binary64 (\<lambda>r. 10) 2 4 ''x'' 100 ?comm = Inr comm' \<and>
      heap (comm' ! 1) (10 + (3 - 1 * 2)) =
        heap (Read_vector_loop binary64 100 4 0 (?comm ! 0)) (100 + 3)"
    by blast
  from T obtain c2 where "Print_vector (\<lambda>r. 30) 2 4 ''The sum is'' 300 ?comm = Inr c2"
    and "\<forall>r < 2. \<forall>i \<in> block 2 r. heap (c2 ! 0) (300 + i) = heap (?comm ! r) (30 + (i - r * 2))"
    by blast
  with m r have g: "\<exists>comm'. Print_vector (\<lambda>r. 30) 2 4 ''The sum is'' 300 ?comm = Inr comm' \<and>
      heap (comm' ! 0) (300 + 3) = heap (?comm ! 1) (30 + (3 - 1 * 2))"
    by blast
  from h3 h4 u d m s g show ?thesis by (intro conjI)
qed

text \<open>
  Claim C3 says that a vector order which the number of processes does not divide is
  rejected in \<^verbatim>\<open>Read_n\<close>, before any scatter. The program does not do so: with 3
  processes \<^verbatim>\<open>Read_n\<close> returns the order 100000 and the block size 33333 on every rank
  without any check, and every process goes through both scatters and the gather and
  ends with status 0 and nothing on standard error.
\<close>

theorem indivisible_order_not_rejected:
  "100000 mod 3 \<noteq> (0::nat) \<and>
   list_all (\<lambda>r. Read_n r 3 = (100000, 33333)) [0..<3] \<and>
   (\<exists>comm. mpi_main binary64
        \<lparr>local_x = (\<lambda>r. 1), local_y = (\<lambda>r. 40001), local_z = (\<lambda>r. 80001),
         a_x = 200001, a_y = 200001, b_z = 200001\<rparr> 3 (\<lambda>r a. Fin False 0 0) = Inr comm \<and>
      length comm = 3 \<and>
      list_all (\<lambda>p. exit_status p = Some 0 \<and> stderr p = [] \<and>
        collectives p = [Allreduce, Scatter, Scatter, Allreduce, Gather, Finalize]) comm)"
proof -
  let ?M = "\<lparr>local_x = (\<lambda>r. 1), local_y = (\<lambda>r. 40001), local_z = (\<lambda>r. 80001),
         a_x = 200001, a_y = 200001, b_z = 200001\<rparr>"
  have n: "Read_n r 3 = (100000, 33333)" for r
    by (simp add: Read_n_def)
  have a: "allocated ?M 3 100000 33333"
    by (simp add: allocated_def separate_def NULL_def list_all_iff)
  have "(0::nat) < 3" and "(3::nat) * 33333 \<le> 100000" by simp_all
  from mpi_run_success [OF this a, of binary64 "\<lambda>r a. Fin False 0 0"]
  obtain comm where run: "mpi_run binary64 ?M 100000 33333 (MPI_Init binary64 3 (\<lambda>r a. Fin False 0 0)) = Inr comm"
    and len: "length comm = 3"
    and all: "\<forall>r < 3. rank (comm ! r) = r \<and> exit_status (comm ! r) = Some 0 \<and>
         stderr (comm ! r) = [] \<and>
         collectives (comm ! r) = [Allreduce, Scatter, Scatter, Allreduce, Gather, Finalize]"
    by blast
  have main: "mpi_main binary64 ?M 3 (\<lambda>r a. Fin False 0 0) = Inr comm"
    unfolding mpi_main_def Let_def n using run by simp
  have every: "list_all (\<lambda>p. exit_status p = Some 0 \<and> stderr p = [] \<and>
        collectives p = [Allreduce, Scatter, Scatter, Allreduce, Gather, Finalize]) comm"
    using all by (simp add: list_all_nth len)
  have "100000 mod 3 \<noteq> (0::nat)" by simp
  moreover have "list_all (\<lambda>r. Read_n r 3 = (100000, 33333)) [0..<3]"
    by (simp add: n list_all_iff)
  ultimately show ?thesis using main len every by blast
qed

section \<open>Properties of binary64 arithmetic\<close>

lemma double_add_commute: "\<not> (is_nan a \<and> is_nan b) \<Longrightarrow> double_add a b = double_add b a"
  by (cases a; cases b) (auto simp: Let_def add.commute)

lemma double_eq_refl: "double_eq a a = (\<not> is_nan a)"
  by (cases a) simp_all

lemma is_nan_normalise: "\<not> is_nan (normalise s q k)"
  by (simp add: normalise_def Let_def)

lemma is_nan_round_units: "\<not> is_nan (round_units s N D)"
  by (simp add: round_units_def Let_def is_nan_normalise)

lemma is_nan_double_add:
  "is_nan (double_add a b) =
     (is_nan a \<or> is_nan b \<or> (a = Inf True \<and> b = Inf False) \<or> (a = Inf False \<and> b = Inf True))"
  by (cases a; cases b) (auto simp: Let_def quiet_def default_NaN_def is_nan_round_units)

lemma bitlen_le: "n < 2 ^ b \<Longrightarrow> bitlen n \<le> b"
proof (induction b arbitrary: n)
  case 0
  then show ?case by (simp add: bitlen.simps)
next
  case (Suc b)
  show ?case
  proof (cases "n = 0")
    case True
    then show ?thesis by (simp add: bitlen.simps)
  next
    case False
    from Suc.prems have "n div 2 < 2 ^ b" by simp
    then have "bitlen (n div 2) \<le> b" by (rule Suc.IH)
    with False show ?thesis by (subst bitlen.simps) simp
  qed
qed

lemma bitlen_gt: "2 ^ b \<le> n \<Longrightarrow> b < bitlen n"
proof (induction b arbitrary: n)
  case 0
  then show ?case by (subst bitlen.simps) simp
next
  case (Suc b)
  have "0 < (2::nat) ^ Suc b" by simp
  with Suc.prems have "n \<noteq> 0" by linarith
  from Suc.prems have "2 ^ b \<le> n div 2" by simp
  then have "b < bitlen (n div 2)" by (rule Suc.IH)
  with \<open>n \<noteq> 0\<close> show ?case by (subst bitlen.simps) simp
qed

lemma bitlen_eq: "2 ^ b \<le> n \<Longrightarrow> n < 2 ^ Suc b \<Longrightarrow> bitlen n = Suc b"
  using bitlen_le [of n "Suc b"] bitlen_gt [of b n] by simp

lemma round_units_exact:
  assumes "is_double (Fin s m e)"
  shows "round_units s (m * 2 ^ e) 1 = Fin s m e"
proof -
  from assms have m: "m < 2 ^ 53" and e: "e \<le> 2045" and norm: "e = 0 \<or> 2 ^ 52 \<le> m"
    by (simp_all add: is_double_def)
  have k: "bitlen (m * 2 ^ e) - 53 = e"
  proof (cases "e = 0")
    case True
    with m bitlen_le [of m 53] show ?thesis by simp
  next
    case False
    with norm have "2 ^ 52 \<le> m" by simp
    then have "2 ^ (52 + e) \<le> m * 2 ^ e" by (simp add: power_add)
    moreover from m have "m * 2 ^ e < 2 ^ Suc (52 + e)" by (simp add: power_add)
    ultimately have "bitlen (m * 2 ^ e) = Suc (52 + e)" by (rule bitlen_eq)
    then show ?thesis by simp
  qed
  from m have "m \<noteq> 2 ^ 53" by simp
  with e show ?thesis
    by (simp add: round_units_def normalise_def Let_def k)
qed

lemma units_nonzero:
  assumes "0 < m"
  shows "units s m e \<noteq> 0" and "(units s m e < 0) = s" and "nat \<bar>units s m e\<bar> = m * 2 ^ e"
proof -
  define k where "k = m * 2 ^ e"
  have k: "0 < k" using assms by (simp add: k_def)
  have u: "units s m e = (if s then - int k else int k)"
    by (simp add: units_def k_def)
  from k show "units s m e \<noteq> 0" and "(units s m e < 0) = s"
    by (simp_all add: u)
  show "nat \<bar>units s m e\<bar> = m * 2 ^ e"
    unfolding u by (simp add: k_def [symmetric])
qed

lemma units_zero: "units s 0 e = 0"
  by (simp add: units_def)

lemma double_add_zero:
  assumes "is_double a"
  shows "double_add a (Fin False 0 0) =
     (case a of
        NaN s f \<Rightarrow> quiet s f
      | Inf s \<Rightarrow> Inf s
      | Fin s m e \<Rightarrow> if m = 0 then Fin False 0 0 else Fin s m e)"
proof (cases a)
  case (NaN s f)
  then show ?thesis by simp
next
  case (Inf s)
  then show ?thesis by simp
next
  case (Fin s m e)
  show ?thesis
  proof (cases "m = 0")
    case True
    with Fin show ?thesis by (simp add: units_def)
  next
    case False
    then have "0 < m" by simp
    then have "units s m e \<noteq> 0" and "(units s m e < 0) = s" and "nat \<bar>units s m e\<bar> = m * 2 ^ e"
      by (rule units_nonzero)+
    moreover have "round_units s (m * 2 ^ e) 1 = Fin s m e"
      using assms unfolding Fin by (rule round_units_exact)
    ultimately show ?thesis using False by (simp add: Fin Let_def units_zero)
  qed
qed

lemma bitlen_mono: "a \<le> b \<Longrightarrow> bitlen a \<le> bitlen b"
proof (cases "bitlen a")
  case 0
  then show ?thesis by simp
next
  case (Suc c)
  assume ab: "a \<le> b"
  have "2 ^ c \<le> a"
  proof (rule ccontr)
    assume "\<not> 2 ^ c \<le> a"
    then have "a < 2 ^ c" by simp
    then have "bitlen a \<le> c" by (rule bitlen_le)
    with Suc show False by simp
  qed
  with ab have "2 ^ c \<le> b" by simp
  then have "c < bitlen b" by (rule bitlen_gt)
  with Suc show ?thesis by simp
qed

lemma bitlen_bounds: "n < 2 ^ bitlen n" "0 < bitlen n \<Longrightarrow> 2 ^ (bitlen n - 1) \<le> n"
proof -
  show "n < 2 ^ bitlen n"
  proof (rule ccontr)
    assume "\<not> n < 2 ^ bitlen n"
    then have "2 ^ bitlen n \<le> n" by simp
    then have "bitlen n < bitlen n" by (rule bitlen_gt)
    then show False by simp
  qed
  assume pos: "0 < bitlen n"
  show "2 ^ (bitlen n - 1) \<le> n"
  proof (rule ccontr)
    assume "\<not> 2 ^ (bitlen n - 1) \<le> n"
    then have "n < 2 ^ (bitlen n - 1)" by simp
    then have "bitlen n \<le> bitlen n - 1" by (rule bitlen_le)
    with pos show False by simp
  qed
qed

text \<open>The significand before rounding has at most 53 bits, and exactly 53 above the least binade.\<close>

lemma significand_bounds:
  fixes N D :: nat
  assumes "0 < D"
  defines "k \<equiv> bitlen (N div D) - 53"
  shows "N div (D * 2 ^ k) < 2 ^ 53" and "0 < k \<Longrightarrow> 2 ^ 52 \<le> N div (D * 2 ^ k)"
proof -
  let ?Q = "N div D"
  have q: "N div (D * 2 ^ k) = ?Q div 2 ^ k"
    by (simp add: div_mult2_eq)
  have "bitlen ?Q \<le> k + 53" by (simp add: k_def)
  then have "(2::nat) ^ bitlen ?Q \<le> 2 ^ (k + 53)" by (intro power_increasing) simp_all
  with bitlen_bounds(1) [of ?Q] have "?Q < 2 ^ 53 * 2 ^ k" by (simp add: power_add mult.commute)
  then have "?Q div 2 ^ k < 2 ^ 53" by (simp add: less_mult_imp_div_less)
  then show "N div (D * 2 ^ k) < 2 ^ 53" by (simp only: q)
  assume pos: "0 < k"
  then have b: "bitlen ?Q = k + 53" by (simp add: k_def)
  then have "2 ^ (k + 52) \<le> ?Q" using bitlen_bounds(2) [of ?Q] by (simp add: add.commute)
  then have "2 ^ 52 * 2 ^ k \<le> ?Q" by (simp add: power_add mult.commute)
  then have "2 ^ 52 \<le> ?Q div 2 ^ k"
    by (simp add: less_eq_div_iff_mult_less_eq)
  then show "2 ^ 52 \<le> N div (D * 2 ^ k)" by (simp only: q)
qed


lemma normalise_le:
  assumes "q1 \<le> 2 ^ 53" and "q2 \<le> 2 ^ 53"
    and "(k1 = k2 \<and> q1 \<le> q2) \<or> (k1 < k2 \<and> 2 ^ 52 \<le> q2)"
  shows "double_le (normalise False q1 k1) (normalise False q2 k2)"
proof -
  define e1 where "e1 = (if q1 = 2 ^ 53 then k1 + 1 else k1)"
  define e2 where "e2 = (if q2 = 2 ^ 53 then k2 + 1 else k2)"
  define m1 :: nat where "m1 = (if q1 = 2 ^ 53 then 2 ^ 52 else q1)"
  define m2 :: nat where "m2 = (if q2 = 2 ^ 53 then 2 ^ 52 else q2)"
  have n1: "normalise False q1 k1 = (if 2045 < e1 then Inf False else Fin False m1 e1)"
    and n2: "normalise False q2 k2 = (if 2045 < e2 then Inf False else Fin False m2 e2)"
    by (simp_all add: normalise_def Let_def e1_def e2_def m1_def m2_def)
  have v1: "m1 * 2 ^ e1 = q1 * 2 ^ k1" and v2: "m2 * 2 ^ e2 = q2 * 2 ^ k2"
    by (simp_all add: m1_def e1_def m2_def e2_def)
  have e: "e1 \<le> e2"
    using assms by (auto simp: e1_def e2_def)
  have v: "q1 * 2 ^ k1 \<le> q2 * 2 ^ k2"
  proof (cases "k1 = k2")
    case True
    with assms(3) show ?thesis by simp
  next
    case False
    with assms(3) have lt: "k1 < k2" and big: "2 ^ 52 \<le> q2" by simp_all
    have "q1 * 2 ^ k1 \<le> 2 ^ 53 * 2 ^ k1"
      using assms(1) by (rule mult_le_mono1)
    also have "\<dots> = 2 ^ 52 * 2 ^ Suc k1" by simp
    also have "\<dots> \<le> 2 ^ 52 * 2 ^ k2"
      using lt by (intro mult_le_mono2 power_increasing) simp_all
    also have "\<dots> \<le> q2 * 2 ^ k2"
      using big by (rule mult_le_mono1)
    finally show ?thesis .
  qed
  show ?thesis
  proof (cases "2045 < e2")
    case True
    then show ?thesis by (simp add: n1 n2)
  next
    case False
    with e have "\<not> 2045 < e1" by simp
    moreover have "int (m1 * 2 ^ e1) \<le> int (m2 * 2 ^ e2)"
      unfolding v1 v2 using v by (simp only: of_nat_le_iff)
    ultimately show ?thesis
      using False by (simp add: n1 n2 units_def del: of_nat_mult of_nat_power)
  qed
qed

lemma round_units_mono:
  assumes "0 < D" and "N1 \<le> N2"
  shows "double_le (round_units False N1 D) (round_units False N2 D)"
proof -
  define k1 where "k1 = bitlen (N1 div D) - 53"
  define k2 where "k2 = bitlen (N2 div D) - 53"
  define q1 where "q1 = N1 div (D * 2 ^ k1)"
  define q2 where "q2 = N2 div (D * 2 ^ k2)"
  define r1 where "r1 = N1 mod (D * 2 ^ k1)"
  define r2 where "r2 = N2 mod (D * 2 ^ k2)"
  define c1 where "c1 = (if D * 2 ^ k1 < 2 * r1 \<or> (2 * r1 = D * 2 ^ k1 \<and> odd q1)
                         then q1 + 1 else q1)"
  define c2 where "c2 = (if D * 2 ^ k2 < 2 * r2 \<or> (2 * r2 = D * 2 ^ k2 \<and> odd q2)
                         then q2 + 1 else q2)"
  have R1: "round_units False N1 D = normalise False c1 k1"
    and R2: "round_units False N2 D = normalise False c2 k2"
    by (simp_all add: round_units_def Let_def k1_def k2_def q1_def q2_def r1_def r2_def
        c1_def c2_def)
  have "q1 < 2 ^ 53" and "q2 < 2 ^ 53"
    unfolding q1_def q2_def k1_def k2_def using assms(1) by (rule significand_bounds(1))+
  then have c1: "c1 \<le> 2 ^ 53" and c2: "c2 \<le> 2 ^ 53"
    by (simp_all add: c1_def c2_def)
  have qc2: "q2 \<le> c2" by (simp add: c2_def)
  have "N1 div D \<le> N2 div D" using assms(2) by (rule div_le_mono)
  then have "bitlen (N1 div D) \<le> bitlen (N2 div D)" by (rule bitlen_mono)
  then have k: "k1 \<le> k2" by (simp add: k1_def k2_def)
  have "(k1 = k2 \<and> c1 \<le> c2) \<or> (k1 < k2 \<and> 2 ^ 52 \<le> c2)"
  proof (cases "k1 = k2")
    case False
    with k have lt: "k1 < k2" by simp
    then have "0 < k2" by simp
    then have "2 ^ 52 \<le> q2"
      unfolding q2_def k2_def by (rule significand_bounds(2) [OF assms(1)])
    with qc2 lt show ?thesis by simp
  next
    case True
    define u where "u = D * 2 ^ k2"
    have u1: "D * 2 ^ k1 = u" by (simp add: u_def True)
    have q: "q1 \<le> q2"
      unfolding q1_def q2_def u1 u_def [symmetric] using assms(2) by (rule div_le_mono)
    have "c1 \<le> c2"
    proof (cases "q1 = q2")
      case False
      with q have "q1 + 1 \<le> q2" by simp
      moreover have "c1 \<le> q1 + 1" by (simp add: c1_def)
      ultimately show ?thesis using qc2 by simp
    next
      case same: True
      have "N1 = q1 * u + r1" and "N2 = q2 * u + r2"
        by (simp_all add: q1_def q2_def r1_def r2_def u1 u_def [symmetric])
      with assms(2) same have "r1 \<le> r2" by simp
      then show ?thesis
        unfolding c1_def c2_def u1 u_def [symmetric] same by auto
    qed
    with True show ?thesis by simp
  qed
  with c1 c2 show ?thesis
    unfolding R1 R2 by (rule normalise_le)
qed

text \<open>Scaling numerator and denominator alike does not change the rounded quotient.\<close>

lemma round_units_scaled:
  assumes "0 < c"
  shows "round_units s (N * c) (D * c) = round_units s N D"
proof -
  define k where "k = bitlen (N div D) - 53"
  have d: "N * c div (D * c) = N div D"
    using assms by simp
  have u: "D * c * 2 ^ k = D * 2 ^ k * c"
    by (simp add: mult_ac)
  have q: "N * c div (D * 2 ^ k * c) = N div (D * 2 ^ k)"
    using assms by simp
  have r: "N * c mod (D * 2 ^ k * c) = N mod (D * 2 ^ k) * c"
    by simp
  have lt: "(D * 2 ^ k * c < 2 * (N mod (D * 2 ^ k) * c)) = (D * 2 ^ k < 2 * (N mod (D * 2 ^ k)))"
    using assms by (simp add: mult.assoc [symmetric])
  have eq: "(2 * (N mod (D * 2 ^ k) * c) = D * 2 ^ k * c) = (2 * (N mod (D * 2 ^ k)) = D * 2 ^ k)"
    using assms by (simp add: mult.assoc [symmetric])
  show ?thesis
    unfolding round_units_def Let_def d k_def [symmetric] u q r lt eq ..
qed

text \<open>The rounded quotient when the exponent is known.\<close>

lemma round_units_shift:
  assumes "0 < D" and "2 ^ 52 \<le> A div D" and "A div D < 2 ^ 53"
  shows "round_units s (A * 2 ^ k) D =
    normalise s (if D < 2 * (A mod D) \<or> (2 * (A mod D) = D \<and> odd (A div D))
                 then A div D + 1 else A div D) k"
proof -
  have "2 ^ 52 * D \<le> A"
    using assms(1,2) by (simp add: less_eq_div_iff_mult_less_eq)
  then have "2 ^ 52 * D * 2 ^ k \<le> A * 2 ^ k" by (rule mult_le_mono1)
  then have "2 ^ (k + 52) * D \<le> A * 2 ^ k" by (simp add: power_add mult_ac)
  then have lo: "2 ^ (k + 52) \<le> A * 2 ^ k div D"
    using assms(1) by (simp add: less_eq_div_iff_mult_less_eq)
  have "A < 2 ^ 53 * D"
    using assms(1,3) by (simp add: div_less_iff_less_mult)
  then have "A * 2 ^ k < 2 ^ 53 * D * 2 ^ k" by simp
  then have "A * 2 ^ k < 2 ^ (k + 53) * D" by (simp add: power_add mult_ac)
  then have hi: "A * 2 ^ k div D < 2 ^ (k + 53)"
    using assms(1) by (simp add: div_less_iff_less_mult)
  from lo hi have "bitlen (A * 2 ^ k div D) = Suc (k + 52)"
    by (intro bitlen_eq) (simp_all add: add.commute)
  then have b: "bitlen (A * 2 ^ k div D) - 53 = k" by simp
  have q: "A * 2 ^ k div (D * 2 ^ k) = A div D" by simp
  have r: "A * 2 ^ k mod (D * 2 ^ k) = A mod D * 2 ^ k" by simp
  have lt: "(D * 2 ^ k < 2 * (A mod D * 2 ^ k)) = (D < 2 * (A mod D))"
    by (simp add: mult.assoc [symmetric])
  have eq: "(2 * (A mod D * 2 ^ k) = D * 2 ^ k) = (2 * (A mod D) = D)"
    by (simp add: mult.assoc [symmetric])
  show ?thesis
    unfolding round_units_def Let_def b q r lt eq ..
qed

lemma ninety_nine_point_nine:
  "round_units False (999 * 2 ^ 46 * 2 ^ 1028) 10 = Fin False 7029837543348634 1028"
proof -
  have "(0::nat) < 10" and "(2::nat) ^ 52 \<le> 999 * 2 ^ 46 div 10"
    and "999 * 2 ^ 46 div 10 < (2::nat) ^ 53"
    by simp_all
  from round_units_shift [OF this, of False 1028] show ?thesis
    by (simp add: normalise_def Let_def)
qed

lemma normalise_nonnegative: "double_le (Fin False 0 0) (normalise False q k)"
  by (simp add: normalise_def Let_def units_def)

lemma round_units_nonnegative: "double_le (Fin False 0 0) (round_units False N D)"
  by (simp add: round_units_def Let_def normalise_nonnegative)

lemma double_of_int_exact:
  assumes "k < 2 ^ 53"
  shows "\<exists>m e. double_of_int (int k) = Fin False m e \<and> m * 2 ^ e = k * 2 ^ 1074"
proof -
  define N where "N = k * 2 ^ 1074"
  define j where "j = bitlen N - 53"
  have "N < 2 ^ 53 * 2 ^ 1074" using assms by (simp add: N_def)
  then have "N < 2 ^ (53 + 1074)" by (simp only: power_add)
  then have "bitlen N \<le> 53 + 1074" by (rule bitlen_le)
  then have j: "j \<le> 1074" by (simp add: j_def)
  then have "2 ^ 1074 = (2::nat) ^ (1074 - j) * 2 ^ j"
    by (simp add: power_add [symmetric])
  then have N: "N = k * 2 ^ (1074 - j) * 2 ^ j" by (simp add: N_def)
  define q where "q = k * 2 ^ (1074 - j)"
  have Nq: "N = q * 2 ^ j" by (simp add: N q_def)
  have "N div (1 * 2 ^ j) < 2 ^ 53"
    unfolding j_def using significand_bounds(1) [of 1 N] by simp
  then have q53: "q < 2 ^ 53" by (simp add: Nq)
  have "double_of_int (int k) = round_units False N 1"
    by (simp add: double_of_int_def N_def nat_mult_distrib nat_power_eq)
  also have "\<dots> = normalise False q j"
  proof -
    have "N div 2 ^ j = q" and "N mod 2 ^ j = 0" by (simp_all add: Nq)
    then show ?thesis
      by (simp add: round_units_def Let_def j_def [symmetric])
  qed
  also have "\<dots> = Fin False q j"
    using q53 j by (simp add: normalise_def Let_def)
  finally have "double_of_int (int k) = Fin False q j" .
  with Nq show ?thesis by (auto simp: N_def)
qed

lemma tenths:
  assumes "k < 2 ^ 53"
  shows "double_div (double_of_int (int k)) (double_of_int 10) =
           round_units False (k * 2 ^ 1074) 10"
proof -
  from double_of_int_exact [OF assms] obtain m e
    where k: "double_of_int (int k) = Fin False m e" and v: "m * 2 ^ e = k * 2 ^ 1074"
    by blast
  have "(10::nat) < 2 ^ 53" by simp
  from double_of_int_exact [OF this] obtain m' e'
    where t: "double_of_int 10 = Fin False m' e'" and v': "m' * 2 ^ e' = 10 * 2 ^ 1074"
    by auto
  have "m' \<noteq> 0"
  proof
    assume "m' = 0"
    with v' have "(10::nat) * 2 ^ 1074 = 0" by (simp only: mult_0)
    then show False by (simp only: mult_eq_0_iff power_eq_0_iff) simp
  qed
  then have "double_div (double_of_int (int k)) (double_of_int 10) =
      round_units False (m * 2 ^ e * 2 ^ 1074) (m' * 2 ^ e')"
    by (simp only: k t double_div.simps if_False simp_thms)
  also have "\<dots> = round_units False (k * 2 ^ 1074 * 2 ^ 1074) (10 * 2 ^ 1074)"
    by (simp only: v v')
  also have "\<dots> = round_units False (k * 2 ^ 1074) 10"
    by (rule round_units_scaled) (simp only: zero_less_power zero_less_numeral)
  finally show ?thesis .
qed

lemma tenths_range:
  assumes "k \<le> 999"
  shows "double_le (Fin False 0 0) (double_div (double_of_int (int k)) (double_of_int 10)) \<and>
         double_le (double_div (double_of_int (int k)) (double_of_int 10))
           (Fin False 7029837543348634 1028)"
proof -
  from assms have "k < 2 ^ 53" by simp
  then have q: "double_div (double_of_int (int k)) (double_of_int 10) =
      round_units False (k * 2 ^ 1074) 10"
    by (rule tenths)
  have "(2::nat) ^ (46 + 1028) = 2 ^ 46 * 2 ^ 1028" by (rule power_add)
  moreover have "(46::nat) + 1028 = 1074" by simp
  ultimately have p: "(2::nat) ^ 1074 = 2 ^ 46 * 2 ^ 1028" by (simp only:)
  have top: "round_units False (999 * 2 ^ 1074) 10 = Fin False 7029837543348634 1028"
    unfolding p mult.assoc [symmetric] by (rule ninety_nine_point_nine)
  have "(0::nat) < 10" by simp
  moreover have "k * 2 ^ 1074 \<le> 999 * (2::nat) ^ 1074"
    using assms by (rule mult_le_mono1)
  ultimately have "double_le (round_units False (k * 2 ^ 1074) 10)
      (round_units False (999 * 2 ^ 1074) 10)"
    by (rule round_units_mono)
  then have "double_le (round_units False (k * 2 ^ 1074) 10) (Fin False 7029837543348634 1028)"
    by (simp only: top)
  with round_units_nonnegative [of "k * 2 ^ 1074" 10] show ?thesis
    by (simp only: q simp_thms)
qed

section \<open>Properties that rest on the arithmetic\<close>

text \<open>
  Claim C6 says that \<open>sum(x, y) == sum(y, x)\<close> for every pair of sequences. In binary64
  this fails at two elements. For a NaN in \<open>x\<close> both sums are NaNs, and the comparison
  \<^verbatim>\<open>==\<close> of a NaN with a NaN is false. For two NaNs with the fractions 1 and 2 in \<open>x\<close>
  and \<open>y\<close> each sum is the NaN of its left operand, so the two sums are different
  doubles.
\<close>

theorem summation_not_commutative:
  "\<not> double_eq
       (Vector_sum binary64 1 2 3 1 ((\<lambda>a::nat. Fin False 0 0)(1 := NaN False (2 ^ 51 + 1))) (3 + 0))
       (Vector_sum binary64 2 1 3 1 ((\<lambda>a::nat. Fin False 0 0)(1 := NaN False (2 ^ 51 + 1))) (3 + 0)) \<and>
   Vector_sum binary64 1 2 3 1
       ((\<lambda>a::nat. Fin False 0 0)(1 := NaN False (2 ^ 51 + 1), 2 := NaN False (2 ^ 51 + 2))) (3 + 0) \<noteq>
     Vector_sum binary64 2 1 3 1
       ((\<lambda>a::nat. Fin False 0 0)(1 := NaN False (2 ^ 51 + 1), 2 := NaN False (2 ^ 51 + 2))) (3 + 0)"
proof -
  have s: "separate 3 1 1 1" "separate 3 1 2 1" "(0::nat) < 1"
    by (simp_all add: separate_def)
  have v: "Vector_sum binary64 1 2 3 1 h (3 + 0) = double_add (h (1 + 0)) (h (2 + 0))" for h
    using Vector_sum_inside [OF s, of binary64 h] by (simp add: binary64_def)
  have w: "Vector_sum binary64 2 1 3 1 h (3 + 0) = double_add (h (2 + 0)) (h (1 + 0))" for h
    using Vector_sum_inside [OF s(2,1,3), of binary64 h] by (simp add: binary64_def)
  show ?thesis
    unfolding v w by (simp add: quiet_def)
qed

text \<open>
  Claim C6, amended. For every pair of sequences \<open>x\<close> and \<open>y\<close> of the same length and
  every index \<open>i\<close>, with \<^verbatim>\<open>Vector_sum\<close> and with \<^verbatim>\<open>Parallel_vector_sum\<close>: element \<open>i\<close> of
  \<open>sum(x, y)\<close> is the very same double as element \<open>i\<close> of \<open>sum(y, x)\<close> unless \<open>x[i]\<close> and
  \<open>y[i]\<close> are both NaNs; the two compare equal (\<^verbatim>\<open>==\<close>) unless the sum is a NaN; and the
  sum is a NaN exactly when \<open>x[i]\<close> or \<open>y[i]\<close> is a NaN or they are the two infinities
  of opposite signs, in which case the sum in the other order is a NaN as well.
\<close>

theorem summation_commutes:
  assumes "fadd P = double_add"
    and "separate z n x n" and "separate z n y n" and "i < n"
  shows "(\<not> (is_nan (h (x + i)) \<and> is_nan (h (y + i))) \<longrightarrow>
            Vector_sum P x y z n h (z + i) = Vector_sum P y x z n h (z + i)) \<and>
         (\<not> is_nan (Vector_sum P x y z n h (z + i)) \<longrightarrow>
            double_eq (Vector_sum P x y z n h (z + i)) (Vector_sum P y x z n h (z + i))) \<and>
         is_nan (Vector_sum P x y z n h (z + i)) =
           (is_nan (h (x + i)) \<or> is_nan (h (y + i)) \<or>
            (h (x + i) = Inf True \<and> h (y + i) = Inf False) \<or>
            (h (x + i) = Inf False \<and> h (y + i) = Inf True)) \<and>
         is_nan (Vector_sum P y x z n h (z + i)) = is_nan (Vector_sum P x y z n h (z + i)) \<and>
         (\<not> (is_nan (h (x + i)) \<and> is_nan (h (y + i))) \<longrightarrow>
            Parallel_vector_sum P x y z n h (z + i) = Parallel_vector_sum P y x z n h (z + i)) \<and>
         (\<not> is_nan (Parallel_vector_sum P x y z n h (z + i)) \<longrightarrow>
            double_eq (Parallel_vector_sum P x y z n h (z + i))
              (Parallel_vector_sum P y x z n h (z + i))) \<and>
         is_nan (Parallel_vector_sum P x y z n h (z + i)) =
           (is_nan (h (x + i)) \<or> is_nan (h (y + i)) \<or>
            (h (x + i) = Inf True \<and> h (y + i) = Inf False) \<or>
            (h (x + i) = Inf False \<and> h (y + i) = Inf True)) \<and>
         is_nan (Parallel_vector_sum P y x z n h (z + i)) =
           is_nan (Parallel_vector_sum P x y z n h (z + i))"
proof -
  define a where "a = h (x + i)"
  define b where "b = h (y + i)"
  have xy: "Vector_sum P x y z n h (z + i) = double_add a b"
    using Vector_sum_inside [OF assms(2-4), of P h] by (simp add: assms(1) a_def b_def)
  have yx: "Vector_sum P y x z n h (z + i) = double_add b a"
    using Vector_sum_inside [OF assms(3,2,4), of P h] by (simp add: assms(1) a_def b_def)
  have same: "double_add a b = double_add b a" if "\<not> (is_nan a \<and> is_nan b)"
    using that by (rule double_add_commute)
  have nan: "is_nan (double_add a b) =
      (is_nan a \<or> is_nan b \<or> (a = Inf True \<and> b = Inf False) \<or> (a = Inf False \<and> b = Inf True))"
    by (rule is_nan_double_add)
  have nan': "is_nan (double_add b a) = is_nan (double_add a b)"
    unfolding is_nan_double_add by blast
  have eq: "double_eq (double_add a b) (double_add b a)" if n: "\<not> is_nan (double_add a b)"
  proof -
    from n have "\<not> (is_nan a \<and> is_nan b)" by (simp add: nan)
    then have "double_add b a = double_add a b" by (simp add: same)
    with n show ?thesis by (simp add: double_eq_refl)
  qed
  from same eq nan nan' show ?thesis
    unfolding Parallel_vector_sum_eq xy yx a_def [symmetric] b_def [symmetric]
    by (intro conjI impI)
qed

theorem summation_commutes_witness:
  "fadd binary64 = double_add \<and> separate 30 2 10 2 \<and> separate 30 2 20 2 \<and> (1::nat) < 2 \<and>
   Vector_sum binary64 10 20 30 2 (\<lambda>a. Fin False a 0) (30 + 1) =
     Vector_sum binary64 20 10 30 2 (\<lambda>a. Fin False a 0) (30 + 1) \<and>
   double_eq (Vector_sum binary64 10 20 30 2 (\<lambda>a. Fin False a 0) (30 + 1))
     (Vector_sum binary64 20 10 30 2 (\<lambda>a. Fin False a 0) (30 + 1)) \<and>
   Parallel_vector_sum binary64 10 20 30 2 (\<lambda>a. Fin False a 0) (30 + 1) =
     Parallel_vector_sum binary64 20 10 30 2 (\<lambda>a. Fin False a 0) (30 + 1) \<and>
   double_eq (Parallel_vector_sum binary64 10 20 30 2 (\<lambda>a. Fin False a 0) (30 + 1))
     (Parallel_vector_sum binary64 20 10 30 2 (\<lambda>a. Fin False a 0) (30 + 1))"
proof -
  have p: "fadd binary64 = double_add" by (simp add: binary64_def)
  have s: "separate 30 2 10 2" "separate 30 2 20 2" "(1::nat) < 2"
    by (simp_all add: separate_def)
  note T = summation_commutes [OF p s, of "\<lambda>a. Fin False a 0"]
  have n: "\<not> (is_nan (Fin False (10 + 1) 0) \<and> is_nan (Fin False (20 + 1) 0))"
    by simp
  have m: "\<not> (is_nan (Fin False (10 + 1) 0) \<or> is_nan (Fin False (20 + 1) 0) \<or>
      (Fin False (10 + 1) 0 = Inf True \<and> Fin False (20 + 1) 0 = Inf False) \<or>
      (Fin False (10 + 1) 0 = Inf False \<and> Fin False (20 + 1) 0 = Inf True))"
    by simp
  from T [THEN conjunct1] n
  have same: "Vector_sum binary64 10 20 30 2 (\<lambda>a. Fin False a 0) (30 + 1) =
      Vector_sum binary64 20 10 30 2 (\<lambda>a. Fin False a 0) (30 + 1)"
    by (rule mp)
  have "\<not> is_nan (Vector_sum binary64 10 20 30 2 (\<lambda>a. Fin False a 0) (30 + 1))"
    unfolding T [THEN conjunct2, THEN conjunct2, THEN conjunct1] by (rule m)
  with T [THEN conjunct2, THEN conjunct1]
  have eq: "double_eq (Vector_sum binary64 10 20 30 2 (\<lambda>a. Fin False a 0) (30 + 1))
      (Vector_sum binary64 20 10 30 2 (\<lambda>a. Fin False a 0) (30 + 1))"
    by (rule mp)
  note U = T [THEN conjunct2, THEN conjunct2, THEN conjunct2, THEN conjunct2]
  from U [THEN conjunct1] n
  have same': "Parallel_vector_sum binary64 10 20 30 2 (\<lambda>a. Fin False a 0) (30 + 1) =
      Parallel_vector_sum binary64 20 10 30 2 (\<lambda>a. Fin False a 0) (30 + 1)"
    by (rule mp)
  have "\<not> is_nan (Parallel_vector_sum binary64 10 20 30 2 (\<lambda>a. Fin False a 0) (30 + 1))"
    unfolding U [THEN conjunct2, THEN conjunct2, THEN conjunct1] by (rule m)
  with U [THEN conjunct2, THEN conjunct1]
  have eq': "double_eq (Parallel_vector_sum binary64 10 20 30 2 (\<lambda>a. Fin False a 0) (30 + 1))
      (Parallel_vector_sum binary64 20 10 30 2 (\<lambda>a. Fin False a 0) (30 + 1))"
    by (rule mp)
  from p s same eq same' eq' show ?thesis by (intro conjI)
qed

text \<open>
  Claim C7 says that \<open>sum(x, zeros) == x\<close> for every sequence \<open>x\<close>. In binary64 this fails
  at three elements. For a NaN in \<open>x\<close> the sum is a NaN, and the comparison \<^verbatim>\<open>==\<close> of a
  NaN with a NaN is false. For \<open>-0.0\<close> in \<open>x\<close> the sum with \<open>+0.0\<close> is \<open>+0.0\<close>: it
  compares equal to \<open>-0.0\<close> but is another double. For a signalling NaN in \<open>x\<close> the sum
  is that NaN made quiet, which is another double as well.
\<close>

theorem zero_vector_not_identity:
  "\<not> double_eq (Vector_sum binary64 1 2 3 1 ((\<lambda>a::nat. Fin False 0 0)(1 := NaN False (2 ^ 51))) (3 + 0))
                 (((\<lambda>a::nat. Fin False 0 0)(1 := NaN False (2 ^ 51))) (1 + 0)) \<and>
   Vector_sum binary64 1 2 3 1 ((\<lambda>a::nat. Fin False 0 0)(1 := Fin True 0 0)) (3 + 0) \<noteq>
     ((\<lambda>a::nat. Fin False 0 0)(1 := Fin True 0 0)) (1 + 0) \<and>
   Vector_sum binary64 1 2 3 1 ((\<lambda>a::nat. Fin False 0 0)(1 := NaN False 1)) (3 + 0) \<noteq>
     ((\<lambda>a::nat. Fin False 0 0)(1 := NaN False 1)) (1 + 0)"
proof -
  have s: "separate 3 1 1 1" "separate 3 1 2 1" "(0::nat) < 1"
    by (simp_all add: separate_def)
  have v: "Vector_sum binary64 1 2 3 1 h (3 + 0) = double_add (h (1 + 0)) (h (2 + 0))" for h
    using Vector_sum_inside [OF s, of binary64 h] by (simp add: binary64_def)
  show ?thesis
    unfolding v by (simp add: units_def quiet_def)
qed

text \<open>
  Claim C7, amended. For every sequence \<open>x\<close> and the sequence of the same length of
  \<open>+0.0\<close>, every element of \<open>sum(x, zeros)\<close> is the very same double as the element of
  \<open>x\<close> unless that element is \<open>-0.0\<close>, for which the sum is \<open>+0.0\<close>, or a signalling NaN,
  for which the sum is that NaN made quiet (the quiet bit \<open>2 ^ 51\<close> added to its
  fraction); and it compares equal (\<^verbatim>\<open>==\<close>) to the element of \<open>x\<close> unless that element
  is a NaN.
\<close>

theorem zero_vector_right_identity:
  assumes "fadd P = double_add"
    and "separate z n x n" and "separate z n y n" and "i < n"
    and "h (y + i) = Fin False 0 0"
    and "is_double (h (x + i))"
  shows "(h (x + i) \<noteq> Fin True 0 0 \<and> \<not> signalling (h (x + i)) \<longrightarrow>
            Vector_sum P x y z n h (z + i) = h (x + i)) \<and>
         (h (x + i) = Fin True 0 0 \<longrightarrow> Vector_sum P x y z n h (z + i) = Fin False 0 0) \<and>
         (\<forall>s f. h (x + i) = NaN s f \<and> f < 2 ^ 51 \<longrightarrow>
            Vector_sum P x y z n h (z + i) = NaN s (f + 2 ^ 51)) \<and>
         (\<not> is_nan (h (x + i)) \<longrightarrow> double_eq (Vector_sum P x y z n h (z + i)) (h (x + i)))"
proof -
  define a where "a = h (x + i)"
  have d: "is_double a" using assms(6) by (simp add: a_def)
  have v: "Vector_sum P x y z n h (z + i) = double_add a (Fin False 0 0)"
    using Vector_sum_inside [OF assms(2-4), of P h] by (simp add: assms(1,5) a_def)
  note z = double_add_zero [OF d]
  have "(a \<noteq> Fin True 0 0 \<and> \<not> signalling a \<longrightarrow> double_add a (Fin False 0 0) = a) \<and>
        (a = Fin True 0 0 \<longrightarrow> double_add a (Fin False 0 0) = Fin False 0 0) \<and>
        (\<forall>s f. a = NaN s f \<and> f < 2 ^ 51 \<longrightarrow> double_add a (Fin False 0 0) = NaN s (f + 2 ^ 51)) \<and>
        (\<not> is_nan a \<longrightarrow> double_eq (double_add a (Fin False 0 0)) a)"
  proof (cases a)
    case (NaN s f)
    then show ?thesis by (simp add: quiet_def)
  next
    case (Inf s)
    then show ?thesis by simp
  next
    case (Fin s m e)
    show ?thesis
    proof (cases "m = 0")
      case True
      with d Fin have "e = 0" by (simp add: is_double_def)
      with True Fin z show ?thesis by (cases s) (simp_all add: units_def)
    next
      case False
      with Fin z show ?thesis by simp
    qed
  qed
  then show ?thesis
    unfolding v a_def [symmetric] .
qed

theorem zero_vector_right_identity_witness:
  "fadd binary64 = double_add \<and> separate 3 1 1 1 \<and> separate 3 1 2 1 \<and> (0::nat) < 1 \<and>
   is_double (Fin False (2 ^ 52) 1022) \<and> is_double (Fin True 0 0) \<and> is_double (NaN False 1) \<and>
   Vector_sum binary64 1 2 3 1 ((\<lambda>a::nat. Fin False 0 0)(1 := Fin False (2 ^ 52) 1022)) (3 + 0) =
     Fin False (2 ^ 52) 1022 \<and>
   double_eq (Vector_sum binary64 1 2 3 1 ((\<lambda>a::nat. Fin False 0 0)(1 := Fin False (2 ^ 52) 1022)) (3 + 0))
     (Fin False (2 ^ 52) 1022) \<and>
   Vector_sum binary64 1 2 3 1 ((\<lambda>a::nat. Fin False 0 0)(1 := Fin True 0 0)) (3 + 0) = Fin False 0 0 \<and>
   double_eq (Vector_sum binary64 1 2 3 1 ((\<lambda>a::nat. Fin False 0 0)(1 := Fin True 0 0)) (3 + 0))
     (Fin True 0 0) \<and>
   Vector_sum binary64 1 2 3 1 ((\<lambda>a::nat. Fin False 0 0)(1 := NaN False 1)) (3 + 0) =
     NaN False (1 + 2 ^ 51)"
proof -
  let ?one = "(\<lambda>a::nat. Fin False 0 0)(1 := Fin False (2 ^ 52) 1022)"
  let ?negative_zero = "(\<lambda>a::nat. Fin False 0 0)(1 := Fin True 0 0)"
  let ?signalling = "(\<lambda>a::nat. Fin False 0 0)(1 := NaN False 1)"
  have p: "fadd binary64 = double_add" by (simp add: binary64_def)
  have s: "separate 3 1 1 1" "separate 3 1 2 1" "(0::nat) < 1"
    by (simp_all add: separate_def)
  have d: "is_double (Fin False (2 ^ 52) 1022)" "is_double (Fin True 0 0)" "is_double (NaN False 1)"
    by (simp_all add: is_double_def)
  have z: "?one (2 + 0) = Fin False 0 0" "?negative_zero (2 + 0) = Fin False 0 0"
    "?signalling (2 + 0) = Fin False 0 0"
    by simp_all
  have x1: "?one (1 + 0) = Fin False (2 ^ 52) 1022" by simp
  have x2: "?negative_zero (1 + 0) = Fin True 0 0" by simp
  have x3: "?signalling (1 + 0) = NaN False 1" by simp
  from d(1) have d1: "is_double (?one (1 + 0))" by (simp only: x1)
  from d(2) have d2: "is_double (?negative_zero (1 + 0))" by (simp only: x2)
  from d(3) have d3: "is_double (?signalling (1 + 0))" by (simp only: x3)
  note T1 = zero_vector_right_identity [OF p s z(1) d1, unfolded x1]
  note T2 = zero_vector_right_identity [OF p s z(2) d2, unfolded x2]
  note T3 = zero_vector_right_identity [OF p s z(3) d3, unfolded x3]
  have "Fin False (2 ^ 52) 1022 \<noteq> Fin True 0 0 \<and> \<not> signalling (Fin False (2 ^ 52) 1022)"
    by simp
  with T1 [THEN conjunct1]
  have same: "Vector_sum binary64 1 2 3 1 ?one (3 + 0) = Fin False (2 ^ 52) 1022"
    by (rule mp)
  have "\<not> is_nan (Fin False (2 ^ 52) 1022)" by simp
  with T1 [THEN conjunct2, THEN conjunct2, THEN conjunct2]
  have eq: "double_eq (Vector_sum binary64 1 2 3 1 ?one (3 + 0)) (Fin False (2 ^ 52) 1022)"
    by (rule mp)
  have "Fin True 0 0 = Fin True 0 0" by (rule refl)
  with T2 [THEN conjunct2, THEN conjunct1]
  have zero: "Vector_sum binary64 1 2 3 1 ?negative_zero (3 + 0) = Fin False 0 0"
    by (rule mp)
  have "\<not> is_nan (Fin True 0 0)" by simp
  with T2 [THEN conjunct2, THEN conjunct2, THEN conjunct2]
  have eq_zero: "double_eq (Vector_sum binary64 1 2 3 1 ?negative_zero (3 + 0)) (Fin True 0 0)"
    by (rule mp)
  have "NaN False 1 = NaN False 1 \<and> (1::nat) < 2 ^ 51" by simp
  with T3 [THEN conjunct2, THEN conjunct2, THEN conjunct1, THEN spec, THEN spec]
  have quieted: "Vector_sum binary64 1 2 3 1 ?signalling (3 + 0) = NaN False (1 + 2 ^ 51)"
    by (rule mp)
  from p s d same eq zero eq_zero quieted show ?thesis by (intro conjI)
qed

text \<open>
  Claim C9. With binary64 arithmetic, element \<open>i\<close> of a vector that
  \<^verbatim>\<open>Generate_random_vector\<close> produces is the quotient \<open>k / 10.0\<close> for the remainder
  \<open>k = r mod 1000\<close> of the number \<open>r\<close> that call \<open>i\<close> of \<^verbatim>\<open>rand\<close> returns, so it is one of
  the tenths \<open>0 / 10.0, ..., 999 / 10.0\<close>, and it lies between \<open>0.0\<close> and the double
  \<open>99.9\<close> (significand 7029837543348634, bits \<^verbatim>\<open>0x4058F9999999999A\<close>). The same holds
  for the elements of both input vectors \<open>x\<close> and \<open>y\<close> of the serial program.
\<close>

theorem generated_elements:
  assumes "fdiv P = double_div" and "of_int_d P = double_of_int"
  shows "(i < n \<longrightarrow>
           heap (Generate_random_vector P t a n p) (a + i) =
             double_div (double_of_int (int (rand_output P (srand P t) i mod 1000)))
               (double_of_int 10) \<and>
           rand_output P (srand P t) i mod 1000 \<le> 999 \<and>
           double_le (Fin False 0 0) (heap (Generate_random_vector P t a n p) (a + i)) \<and>
           double_le (heap (Generate_random_vector P t a n p) (a + i))
             (Fin False 7029837543348634 1028)) \<and>
         (x \<noteq> NULL \<and> y \<noteq> NULL \<and> z \<noteq> NULL \<and> separate x VECTOR_SIZE y VECTOR_SIZE \<and>
          separate z VECTOR_SIZE x VECTOR_SIZE \<and> separate z VECTOR_SIZE y VECTOR_SIZE \<and>
          i < VECTOR_SIZE \<longrightarrow>
           heap (serial_main P x y z t1 t2 memory) (x + i) =
             double_div (double_of_int (int (rand_output P (srand P t1) i mod 1000)))
               (double_of_int 10) \<and>
           heap (serial_main P x y z t1 t2 memory) (y + i) =
             double_div (double_of_int (int (rand_output P (srand P t2) i mod 1000)))
               (double_of_int 10) \<and>
           double_le (Fin False 0 0) (heap (serial_main P x y z t1 t2 memory) (x + i)) \<and>
           double_le (heap (serial_main P x y z t1 t2 memory) (x + i))
             (Fin False 7029837543348634 1028) \<and>
           double_le (Fin False 0 0) (heap (serial_main P x y z t1 t2 memory) (y + i)) \<and>
           double_le (heap (serial_main P x y z t1 t2 memory) (y + i))
             (Fin False 7029837543348634 1028))"
proof (intro conjI impI)
  have k: "r mod 1000 \<le> 999" for r :: nat
    using mod_less_divisor [of 1000 r] by simp
  note range = tenths_range [OF k]
  {
    assume i: "i < n"
    have v: "heap (Generate_random_vector P t a n p) (a + i) =
      double_div (double_of_int (int (rand_output P (srand P t) i mod 1000))) (double_of_int 10)"
      using Generate_random_vector_inside [OF i, of P t a p] by (simp only: assms)
    show "heap (Generate_random_vector P t a n p) (a + i) =
      double_div (double_of_int (int (rand_output P (srand P t) i mod 1000))) (double_of_int 10)"
      by (rule v)
    show "rand_output P (srand P t) i mod 1000 \<le> 999" by (rule k)
    show "double_le (Fin False 0 0) (heap (Generate_random_vector P t a n p) (a + i))"
      unfolding v using range by (rule conjunct1)
    show "double_le (heap (Generate_random_vector P t a n p) (a + i))
      (Fin False 7029837543348634 1028)"
      unfolding v using range by (rule conjunct2)
  }
  assume h: "x \<noteq> NULL \<and> y \<noteq> NULL \<and> z \<noteq> NULL \<and> separate x VECTOR_SIZE y VECTOR_SIZE \<and>
          separate z VECTOR_SIZE x VECTOR_SIZE \<and> separate z VECTOR_SIZE y VECTOR_SIZE \<and>
          i < VECTOR_SIZE"
  then have a: "x \<noteq> NULL" "y \<noteq> NULL" "z \<noteq> NULL" "separate x VECTOR_SIZE y VECTOR_SIZE"
    "separate z VECTOR_SIZE x VECTOR_SIZE" "separate z VECTOR_SIZE y VECTOR_SIZE" "i < VECTOR_SIZE"
    by simp_all
  note S = serial_main_inputs [OF a, of P t1 t2 memory]
  have vx: "heap (serial_main P x y z t1 t2 memory) (x + i) =
      double_div (double_of_int (int (rand_output P (srand P t1) i mod 1000))) (double_of_int 10)"
    using S(1) by (simp only: assms)
  have vy: "heap (serial_main P x y z t1 t2 memory) (y + i) =
      double_div (double_of_int (int (rand_output P (srand P t2) i mod 1000))) (double_of_int 10)"
    using S(2) by (simp only: assms)
  show "heap (serial_main P x y z t1 t2 memory) (x + i) =
      double_div (double_of_int (int (rand_output P (srand P t1) i mod 1000))) (double_of_int 10)"
    by (rule vx)
  show "heap (serial_main P x y z t1 t2 memory) (y + i) =
      double_div (double_of_int (int (rand_output P (srand P t2) i mod 1000))) (double_of_int 10)"
    by (rule vy)
  show "double_le (Fin False 0 0) (heap (serial_main P x y z t1 t2 memory) (x + i))"
    unfolding vx using range by (rule conjunct1)
  show "double_le (heap (serial_main P x y z t1 t2 memory) (x + i))
      (Fin False 7029837543348634 1028)"
    unfolding vx using range by (rule conjunct2)
  show "double_le (Fin False 0 0) (heap (serial_main P x y z t1 t2 memory) (y + i))"
    unfolding vy using range by (rule conjunct1)
  show "double_le (heap (serial_main P x y z t1 t2 memory) (y + i))
      (Fin False 7029837543348634 1028)"
    unfolding vy using range by (rule conjunct2)
qed

theorem generated_elements_witness:
  "fdiv binary64 = double_div \<and> of_int_d binary64 = double_of_int \<and>
   heap (Generate_random_vector binary64 7 10 3 (process_start binary64 0 (\<lambda>a. Fin False 0 0))) (10 + 2) =
     double_div (double_of_int (int (rand_output binary64 (srand binary64 7) 2 mod 1000)))
       (double_of_int 10) \<and>
   double_le (heap (Generate_random_vector binary64 7 10 3 (process_start binary64 0 (\<lambda>a. Fin False 0 0)))
     (10 + 2)) (Fin False 7029837543348634 1028) \<and>
   double_le (Fin False 0 0) (heap (serial_main binary64 1 100001 200001 7 8 (\<lambda>a. Fin False 0 0)) (100001 + 5)) \<and>
   double_le (heap (serial_main binary64 1 100001 200001 7 8 (\<lambda>a. Fin False 0 0)) (100001 + 5))
     (Fin False 7029837543348634 1028)"
proof -
  have p: "fdiv binary64 = double_div" "of_int_d binary64 = double_of_int"
    by (simp_all add: binary64_def)
  have i: "(2::nat) < 3" by simp
  have m: "(1::nat) \<noteq> NULL \<and> (100001::nat) \<noteq> NULL \<and> (200001::nat) \<noteq> NULL \<and>
      separate 1 VECTOR_SIZE 100001 VECTOR_SIZE \<and>
      separate 200001 VECTOR_SIZE 1 VECTOR_SIZE \<and> separate 200001 VECTOR_SIZE 100001 VECTOR_SIZE \<and>
      5 < VECTOR_SIZE"
    by (simp add: NULL_def separate_def VECTOR_SIZE_def)
  note T = generated_elements [OF p, of 2 3 7 10 "process_start binary64 0 (\<lambda>a. Fin False 0 0)"
      1 100001 200001 7 8 "\<lambda>a. Fin False 0 0"]
  note T1 = T [THEN conjunct1, THEN mp, OF i]
  have i5: "(5::nat) < VECTOR_SIZE" by (simp add: VECTOR_SIZE_def)
  note U = generated_elements [OF p, of 5 3 7 10 "process_start binary64 0 (\<lambda>a. Fin False 0 0)"
      1 100001 200001 7 8 "\<lambda>a. Fin False 0 0"]
  note U2 = U [THEN conjunct2, THEN mp, OF m]
  from p T1 U2 show ?thesis by (intro conjI) (elim conjE, assumption)+
qed

end
